theory Spec2Isabelle
  imports Complex_Main
begin

section \<open>Python values and errors\<close>

text \<open>
  The exceptions that the modelled parts of \<open>vaplac/base.py\<close> can raise.  Each
  \<^verbatim>\<open>raise\<close> (also the ones raised inside numpy, pandas and \<open>math\<close>) is the \<open>Inl\<close>
  branch of a result of type \<open>error + 'a\<close>.
\<close>

datatype error = IndexError | ValueError | KeyError string | TypeError

text \<open>
  Sequencing: \<open>ebind m f\<close> runs \<open>f\<close> on the value of \<open>m\<close>, unless \<open>m\<close> raised; then
  the exception propagates and \<open>f\<close> is not run.
\<close>

definition ebind :: "error + 'a \<Rightarrow> ('a \<Rightarrow> error + 'b) \<Rightarrow> error + 'b" where
  "ebind m f = (case m of Inl e \<Rightarrow> Inl e | Inr x \<Rightarrow> f x)"

text \<open>
  Floating-point arrays are lists of reals: the arithmetic of the model is exact,
  where the program rounds to binary64.
\<close>

text \<open>
  \<^verbatim>\<open>a[i]\<close> for a Python integer \<open>i\<close>: a negative index counts from the end, an
  index outside \<open>-n \<le> i < n\<close> raises IndexError.
\<close>

definition getitem :: "'a list \<Rightarrow> int \<Rightarrow> error + 'a" where
  "getitem xs i =
     (let n = int (length xs); j = (if i < 0 then i + n else i)
      in if 0 \<le> j \<and> j < n then Inr (xs ! nat j) else Inl IndexError)"

text \<open>\<^verbatim>\<open>a[i] = v\<close>, with the same treatment of the index.\<close>

definition setitem :: "'a list \<Rightarrow> int \<Rightarrow> 'a \<Rightarrow> error + 'a list" where
  "setitem xs i v =
     (let n = int (length xs); j = (if i < 0 then i + n else i)
      in if 0 \<le> j \<and> j < n then Inr (xs[nat j := v]) else Inl IndexError)"

text \<open>
  One bound of a slice \<^verbatim>\<open>a[lo:hi]\<close> over an array of length \<open>n\<close>: a negative bound has
  \<open>n\<close> added, and the result is clipped to \<open>0..n\<close>.
\<close>

definition slice_bound :: "nat \<Rightarrow> int \<Rightarrow> nat" where
  "slice_bound n k = (if k < 0 then nat (max (k + int n) 0) else min (nat k) n)"

text \<open>\<^verbatim>\<open>a[lo:hi] = v\<close> for a scalar \<open>v\<close>: an empty slice changes nothing.\<close>

definition slice_fill :: "'a list \<Rightarrow> int \<Rightarrow> int \<Rightarrow> 'a \<Rightarrow> 'a list" where
  "slice_fill xs lo hi v =
     (let n = length xs; a = slice_bound n lo; b = slice_bound n hi
      in map (\<lambda>j. if a \<le> j \<and> j < b then v else xs ! j) [0..<n])"

text \<open>\<^verbatim>\<open>a[lo:] = v\<close>: the slice runs to the end of the array.\<close>

definition slice_fill_from :: "'a list \<Rightarrow> int \<Rightarrow> 'a \<Rightarrow> 'a list" where
  "slice_fill_from xs lo v =
     (let n = length xs; a = slice_bound n lo
      in map (\<lambda>j. if a \<le> j then v else xs ! j) [0..<n])"

text \<open>
  \<^verbatim>\<open>np.empty_like(a)\<close> allocates an array of the shape of \<open>a\<close> and does not
  initialise it.  The contents the allocator leaves behind are a parameter \<open>g\<close> of the
  model: cell \<open>j\<close> of the fresh array holds \<open>g j\<close>.
\<close>

definition empty_like :: "(nat \<Rightarrow> real) \<Rightarrow> real list \<Rightarrow> real list" where
  "empty_like g xs = map g [0..<length xs]"

section \<open>The steady-state segmenter\<close>

text \<open>
  \<^verbatim>\<open>DataTaker.steady_state_steps_number\<close> (base.py, lines 683-701).  The loop state is
  the three work arrays and the counter \<open>buffer\<close>.
\<close>

record seg_state =
  mean :: "real list"
  var :: "real list"
  steps_number :: "real list"
  buffer :: nat

text \<open>
  The body of \<^verbatim>\<open>for i, f in enumerate(frequency[1:])\<close>, statement by statement.
  \<^verbatim>\<open>math.sqrt\<close> raises ValueError on a negative argument.
\<close>

definition seg_step :: "real \<Rightarrow> nat \<Rightarrow> real \<Rightarrow> seg_state \<Rightarrow> error + seg_state" where
  "seg_step sd_limit i f s =
     (let b = real (buffer s) in
      ebind (getitem (mean s) (int i - 1)) (\<lambda>mp.
      ebind (setitem (mean s) (int i) ((b * mp + f) / (b + 1))) (\<lambda>mean1.
      ebind (getitem (var s) (int i - 1)) (\<lambda>vp.
      ebind (getitem mean1 (int i - 1)) (\<lambda>mp'.
      ebind (getitem mean1 (int i)) (\<lambda>mi.
      ebind (setitem (var s) (int i) ((b * (vp + mp'\<^sup>2) + f\<^sup>2) / (b + 1) - mi\<^sup>2)) (\<lambda>var1.
      let buffer1 = buffer s + 1 in
      ebind (getitem var1 (int i)) (\<lambda>vi.
      if vi < 0 then Inl ValueError
      else if sqrt vi > sd_limit then
        ebind (setitem mean1 (int i) f) (\<lambda>mean2.
        ebind (setitem var1 (int i) 0) (\<lambda>var2.
        Inr \<lparr>mean = mean2, var = var2,
             steps_number =
               slice_fill (steps_number s) (int i - int buffer1) (int i) (real buffer1),
             buffer = 0\<rparr>))
      else
        Inr \<lparr>mean = mean1, var = var1, steps_number = steps_number s,
             buffer = buffer1\<rparr>))))))))"

fun seg_loop :: "real \<Rightarrow> nat \<Rightarrow> real list \<Rightarrow> seg_state \<Rightarrow> error + seg_state" where
  "seg_loop sd_limit i [] s = Inr s"
| "seg_loop sd_limit i (f # fs) s =
     ebind (seg_step sd_limit i f s) (\<lambda>s'. seg_loop sd_limit (Suc i) fs s')"

text \<open>
  The whole method, given the magnitudes of the quantity \<open>f\<close> in Hz.  \<open>gm\<close>, \<open>gv\<close> and
  \<open>gs\<close> are the uninitialised contents of \<open>mean\<close>, \<open>var\<close> and \<open>steps_number\<close>.
  \<^verbatim>\<open>frequency[0]\<close> raises IndexError on an empty array.
\<close>

definition steady_state_steps_number ::
  "(nat \<Rightarrow> real) \<Rightarrow> (nat \<Rightarrow> real) \<Rightarrow> (nat \<Rightarrow> real) \<Rightarrow> real list \<Rightarrow> real \<Rightarrow> error + real list" where
  "steady_state_steps_number gm gv gs frequency sd_limit =
     ebind (getitem frequency 0) (\<lambda>f0.
     ebind (setitem (empty_like gm frequency) 0 f0) (\<lambda>mean0.
     ebind (setitem (empty_like gv frequency) 0 0) (\<lambda>var0.
     ebind (seg_loop sd_limit 0 (tl frequency)
              \<lparr>mean = mean0, var = var0, steps_number = empty_like gs frequency,
               buffer = 1\<rparr>) (\<lambda>s.
     Inr (slice_fill_from (steps_number s) (- int (buffer s)) (real (buffer s)))))))"

text \<open>
  Line 454 of \<^verbatim>\<open>set_steady_state_limits\<close>: the sample counts times the sampling
  interval in seconds.
\<close>

definition steady_state_time :: "real list \<Rightarrow> real \<Rightarrow> real list" where
  "steady_state_time steps timestep = map (\<lambda>k. k * timestep) steps"

section \<open>The binner\<close>

text \<open>
  \<^verbatim>\<open>DataTaker.set_steady_state_limits\<close> (base.py, lines 429-482).  The decorator
  \<^verbatim>\<open>ureg.wraps\<close> hands the method the magnitudes of \<open>limits\<close> in seconds: floats,
  among them \<^verbatim>\<open>-np.inf\<close> and \<^verbatim>\<open>np.inf\<close>.
\<close>

datatype limit = NegInf | Fin real | PosInf

fun lim_le :: "limit \<Rightarrow> limit \<Rightarrow> bool" where
  "lim_le NegInf _ = True"
| "lim_le _ PosInf = True"
| "lim_le (Fin a) (Fin b) = (a \<le> b)"
| "lim_le _ _ = False"

text \<open>
  \<^verbatim>\<open>np.digitize(x, bins)\<close> as numpy documents and implements it (\<open>right=False\<close>).
  The bins are classified as non-decreasing (1), non-increasing (-1) or neither (0,
  which raises ValueError); a constant array counts as non-decreasing.
\<close>

definition monotonicity :: "limit list \<Rightarrow> int" where
  "monotonicity bins =
     (if sorted_wrt lim_le bins then 1
      else if sorted_wrt (\<lambda>a b. lim_le b a) bins then - 1 else 0)"

text \<open>
  \<^verbatim>\<open>np.searchsorted(a, v, side='right')\<close> on a non-decreasing array: the index
  after the last element that is at most \<open>v\<close>.
\<close>

definition searchsorted_right :: "limit list \<Rightarrow> real \<Rightarrow> nat" where
  "searchsorted_right a v = length (takeWhile (\<lambda>b. lim_le b (Fin v)) a)"

definition digitize :: "real list \<Rightarrow> limit list \<Rightarrow> error + nat list" where
  "digitize x bins =
     (let mono = monotonicity bins in
      if mono = 0 then Inl ValueError
      else if mono = - 1 then
        Inr (map (\<lambda>v. length bins - searchsorted_right (rev bins) v) x)
      else Inr (map (searchsorted_right bins) x))"

text \<open>
  A threshold with its display unit (\<open>dimlimits\<close>), and the three label formats.  The
  labels are kept as the arguments of the format strings \<open>lbound\<close>, \<open>ubound\<close> and
  \<open>between\<close>, not as rendered text; \<open>None\<close> is Python's \<open>None\<close>.
\<close>

datatype time_unit = Seconds | Minutes

type_synonym dimlimit = "limit \<times> time_unit"

datatype label = Lbound dimlimit | Ubound dimlimit | Between dimlimit dimlimit

fun to_minutes :: "limit \<Rightarrow> limit" where
  "to_minutes (Fin a) = Fin (a / 60)"
| "to_minutes l = l"

text \<open>
  Lines 456-461: the two flags, and the limits without the infinite sentinels.  On an
  empty array \<^verbatim>\<open>limits[0]\<close> raises IndexError, see \<open>sst_bins\<close>.
\<close>

definition include_lb :: "limit list \<Rightarrow> bool" where
  "include_lb limits = (limits \<noteq> [] \<and> hd limits = NegInf)"

definition include_ub :: "limit list \<Rightarrow> bool" where
  "include_ub limits = (limits \<noteq> [] \<and> last limits = PosInf)"

definition explicit_limits :: "limit list \<Rightarrow> limit list" where
  "explicit_limits limits =
     (let limits1 = (if include_lb limits then tl limits else limits)
      in if include_ub limits then butlast limits1 else limits1)"

text \<open>
  Lines 462-464: the limits as quantities, in minutes when the second one is at least
  60 s and in seconds otherwise.  \<^verbatim>\<open>limits[1]\<close> raises IndexError when fewer than
  two limits are left.
\<close>

definition dimlimit_of :: "limit \<Rightarrow> limit \<Rightarrow> dimlimit" where
  "dimlimit_of l1 l = (if lim_le (Fin 60) l1 then (to_minutes l, Minutes) else (l, Seconds))"

definition to_dimlimits :: "limit list \<Rightarrow> error + dimlimit list" where
  "to_dimlimits limits = ebind (getitem limits 1) (\<lambda>l1. Inr (map (dimlimit_of l1) limits))"

text \<open>
  One pass of the loop of lines 475-481, for the bin index \<open>binidx\<close> of a sample;
  \<open>lb\<close> and \<open>ub\<close> are the flags \<open>include_lb\<close> and \<open>include_ub\<close>.
\<close>

definition bin_label ::
  "bool \<Rightarrow> bool \<Rightarrow> dimlimit list \<Rightarrow> int \<Rightarrow> error + label option" where
  "bin_label lb ub dimlimits binidx =
     (if binidx = - 1 then
        (if lb then ebind (getitem dimlimits 0) (\<lambda>d. Inr (Some (Lbound d)))
         else Inr None)
      else if binidx = int (length dimlimits) - 1 then
        (if ub then ebind (getitem dimlimits (- 1)) (\<lambda>d. Inr (Some (Ubound d)))
         else Inr None)
      else
        ebind (getitem dimlimits binidx) (\<lambda>lo.
        ebind (getitem dimlimits (binidx + 1)) (\<lambda>hi.
        Inr (Some (Between lo hi)))))"

fun bin_loop ::
  "bool \<Rightarrow> bool \<Rightarrow> dimlimit list \<Rightarrow> nat list \<Rightarrow> error + label option list" where
  "bin_loop lb ub dimlimits [] = Inr []"
| "bin_loop lb ub dimlimits (d # ds) =
     ebind (bin_label lb ub dimlimits (int d - 1)) (\<lambda>l.
     ebind (bin_loop lb ub dimlimits ds) (\<lambda>ls.
     Inr (l # ls)))"

text \<open>
  The method from line 455 on, given \<open>steady_state_time\<close>: the result is the column
  that line 482 stores as \<^verbatim>\<open>raw_data['steady_state_time']\<close>.  An exception leaves
  the method before line 482, so an \<open>Inl\<close> result means that no column is written.
\<close>

definition sst_bins :: "limit list \<Rightarrow> real list \<Rightarrow> error + label option list" where
  "sst_bins limits sst =
     ebind (getitem limits 0) (\<lambda>l0.
     ebind (getitem limits (- 1)) (\<lambda>ll.
     let limits2 = explicit_limits limits in
     ebind (to_dimlimits limits2) (\<lambda>dimlimits.
     ebind (digitize sst limits2) (\<lambda>idx.
     bin_loop (l0 = NegInf) (ll = PosInf) dimlimits idx))))"

text \<open>
  The method as a whole: the segmenter's counts are scaled by the sampling interval
  (lines 453-454), then binned.
\<close>

definition set_steady_state_limits ::
  "(nat \<Rightarrow> real) \<Rightarrow> (nat \<Rightarrow> real) \<Rightarrow> (nat \<Rightarrow> real) \<Rightarrow> real list \<Rightarrow> real \<Rightarrow> limit list
     \<Rightarrow> error + label option list" where
  "set_steady_state_limits gm gv gs frequency timestep limits =
     ebind (steady_state_steps_number gm gv gs frequency 2) (\<lambda>steps.
     sst_bins limits (steady_state_time steps timestep))"

section \<open>Strings\<close>

text \<open>
  \<^verbatim>\<open>str.split()\<close> without arguments: the words between runs of white space (the
  ASCII white-space characters; the model's strings are byte strings).
\<close>

definition is_space :: "char \<Rightarrow> bool" where
  "is_space c =
     (c \<in> set [CHR 0x09, CHR 0x0A, CHR 0x0B, CHR 0x0C, CHR 0x0D,
               CHR 0x1C, CHR 0x1D, CHR 0x1E, CHR 0x1F, CHR 0x20])"

fun split_acc :: "string \<Rightarrow> string \<Rightarrow> string list" where
  "split_acc w [] = (if w = [] then [] else [w])"
| "split_acc w (c # cs) =
     (if is_space c then (if w = [] then split_acc [] cs else w # split_acc [] cs)
      else split_acc (w @ [c]) cs)"

definition split :: "string \<Rightarrow> string list" where
  "split s = split_acc [] s"

text \<open>\<^verbatim>\<open>s.strip(c)\<close> for a single character \<open>c\<close>.\<close>

definition strip :: "char \<Rightarrow> string \<Rightarrow> string" where
  "strip c s = rev (dropWhile (\<lambda>x. x = c) (rev (dropWhile (\<lambda>x. x = c) s)))"

text \<open>
  \<^verbatim>\<open>int(s)\<close> on a string of decimal digits (ValueError otherwise), and \<^verbatim>\<open>str(n)\<close>
  for a natural number, as the f-string of line 348 prints it.
\<close>

definition digit_of :: "char \<Rightarrow> nat option" where
  "digit_of c =
     map_of [(CHR ''0'', 0), (CHR ''1'', 1), (CHR ''2'', 2), (CHR ''3'', 3), (CHR ''4'', 4),
             (CHR ''5'', 5), (CHR ''6'', 6), (CHR ''7'', 7), (CHR ''8'', 8), (CHR ''9'', 9)] c"

fun int_of_digits :: "nat \<Rightarrow> string \<Rightarrow> error + nat" where
  "int_of_digits acc [] = Inr acc"
| "int_of_digits acc (c # cs) =
     (case digit_of c of None \<Rightarrow> Inl ValueError
      | Some d \<Rightarrow> int_of_digits (10 * acc + d) cs)"

definition py_int :: "string \<Rightarrow> error + nat" where
  "py_int s = (if s = [] then Inl ValueError else int_of_digits 0 s)"

fun str_nat :: "nat \<Rightarrow> string" where
  "str_nat n =
     (if n < 10 then [''0123456789'' ! n]
      else str_nat (n div 10) @ [''0123456789'' ! (n mod 10)])"

text \<open>The backslash of the LaTeX labels.\<close>

definition bs :: string where
  "bs = [CHR 0x5C]"

section \<open>Quantities, the data set and the external collaborators\<close>

text \<open>
  A cell of the data logger's table is a number or a text (such as the sentinel
  \<^verbatim>\<open>'UnderRange'\<close>).  A quantity (\<^verbatim>\<open>Q_\<close>) is a magnitude array with its unit,
  label and property; an absent attribute is \<open>None\<close>.
\<close>

datatype cell = Num real | Txt string

record quantity =
  magnitude :: "cell list"
  units :: "string option"
  qlabel :: "string option"
  qprop :: "string option"

definition Qty ::
  "cell list \<Rightarrow> string option \<Rightarrow> string option \<Rightarrow> string option \<Rightarrow> quantity" where
  "Qty m u l p = \<lparr>magnitude = m, units = u, qlabel = l, qprop = p\<rparr>"

text \<open>Arithmetic on an array that holds a text raises TypeError.\<close>

fun floats :: "cell list \<Rightarrow> error + real list" where
  "floats [] = Inr []"
| "floats (Num x # cs) = ebind (floats cs) (\<lambda>xs. Inr (x # xs))"
| "floats (Txt t # cs) = Inl TypeError"

text \<open>
  Elementwise operations on two arrays; arrays of different lengths raise ValueError
  (broadcasting of one-element arrays is not modelled).
\<close>

definition zip_with :: "('a \<Rightarrow> 'b \<Rightarrow> 'c) \<Rightarrow> 'a list \<Rightarrow> 'b list \<Rightarrow> error + 'c list" where
  "zip_with f xs ys =
     (if length xs = length ys then Inr (map2 f xs ys) else Inl ValueError)"

text \<open>\<^verbatim>\<open>a[mask]\<close> and \<^verbatim>\<open>a[mask] = values\<close> for a boolean mask.\<close>

definition mask_select :: "'a list \<Rightarrow> bool list \<Rightarrow> 'a list" where
  "mask_select xs msk = map fst (filter snd (zip xs msk))"

fun mask_assign :: "'a list \<Rightarrow> bool list \<Rightarrow> 'a list \<Rightarrow> 'a list" where
  "mask_assign (x # xs) (True # ms) (v # vs) = v # mask_assign xs ms vs"
| "mask_assign (x # xs) (False # ms) vs = x # mask_assign xs ms vs"
| "mask_assign xs ms vs = xs"

text \<open>
  The table \<^verbatim>\<open>raw_data\<close>: its number of rows and its named columns.  A row of the
  name converter gives the column, unit, label and property of a quantity name.
\<close>

record table =
  n_rows :: nat
  column :: "string \<rightharpoonup> cell list"

record nconv_row =
  col_names :: string
  nc_units :: "string option"
  labels :: "string option"
  properties :: "string option"

text \<open>
  What the class takes from outside: the loaded table with its time stamps (in
  seconds), the name converter, CoolProp's enthalpy at pressure and temperature
  (\<open>props_PT\<close>), at pressure and quality (\<open>props_PQ\<close>), its phase, the humidity ratio of
  \<^verbatim>\<open>HAPropsSI\<close>, the unit library's conversion \<^verbatim>\<open>Quantity.to\<close> and sum of two
  quantities, and Python's \<^verbatim>\<open>float\<close> of a text.  The property functions are total
  here: exceptions of CoolProp are not modelled.
\<close>

record env =
  raw_data :: table
  timestamp :: "int list"
  name_converter :: "string \<rightharpoonup> nconv_row"
  props_PT :: "real \<Rightarrow> real \<Rightarrow> real"
  props_PQ :: "real \<Rightarrow> real \<Rightarrow> real"
  phase :: "real \<Rightarrow> real \<Rightarrow> string"
  psychro :: "real \<Rightarrow> real \<Rightarrow> real \<Rightarrow> real"
  to_units :: "string option \<Rightarrow> quantity \<Rightarrow> error + quantity"
  add_q :: "quantity \<Rightarrow> quantity \<Rightarrow> error + quantity"
  float_of :: "string \<Rightarrow> real option"

text \<open>
  The mutable attributes of a DataTaker: the cache \<open>quantities\<close> and the filter
  \<open>_groups\<close> it was built for.  \<open>trace\<close> is a ghost field: it records every
  \<^verbatim>\<open>self.quantities = {}\<close> as \<open>Cleared\<close> and every assignment
  \<^verbatim>\<open>self.quantities[name] = ...\<close> as \<open>Derived name\<close>, in the order they happen.
\<close>

datatype event = Cleared | Derived string

type_synonym kwargs = "(string \<times> cell) list"

record datataker =
  quantities :: "string \<rightharpoonup> quantity"
  groups :: kwargs
  trace :: "event list"

definition store :: "string \<Rightarrow> quantity \<Rightarrow> datataker \<Rightarrow> datataker" where
  "store name q s = s\<lparr>quantities := (quantities s)(name \<mapsto> q), trace := trace s @ [Derived name]\<rparr>"

definition clear :: "datataker \<Rightarrow> datataker" where
  "clear s = s\<lparr>quantities := Map.empty, trace := trace s @ [Cleared]\<rparr>"

text \<open>Loops over a list in the error monad.\<close>

fun foldM :: "('a \<Rightarrow> 's \<Rightarrow> error + 's) \<Rightarrow> 'a list \<Rightarrow> 's \<Rightarrow> error + 's" where
  "foldM f [] s = Inr s"
| "foldM f (x # xs) s = ebind (f x s) (foldM f xs)"

fun mapM :: "('a \<Rightarrow> error + 'b) \<Rightarrow> 'a list \<Rightarrow> error + 'b list" where
  "mapM f [] = Inr []"
| "mapM f (x # xs) = ebind (f x) (\<lambda>y. ebind (mapM f xs) (\<lambda>ys. Inr (y # ys)))"

text \<open>
  \<^verbatim>\<open>get_timestep().seconds\<close> (lines 218-221): the difference of the first two time
  stamps, of which \<^verbatim>\<open>.seconds\<close> is the part below one day.
\<close>

definition get_timestep_seconds :: "env \<Rightarrow> error + int" where
  "get_timestep_seconds E =
     ebind (getitem (timestamp E) 0) (\<lambda>t0.
     ebind (getitem (timestamp E) 1) (\<lambda>t1.
     Inr ((t1 - t0) mod 86400)))"

section \<open>Heat transfer rates and the phase correction\<close>

text \<open>
  \<^verbatim>\<open>DataTaker._heat\<close> (base.py, lines 590-663).  First the part for one side of the
  process (lines 624-652 do the same for inlet and outlet): the enthalpies \<open>h\<close> at the
  measured pressures and temperatures, the phases, and the replacement by the
  saturated state \<^emph>\<open>if the expected phase occurs at no sample\<close> (the test
  \<^verbatim>\<open>if not exp_phase in phase\<close> of lines 643 and 648).
\<close>

definition quality :: "string \<Rightarrow> real" where
  "quality exp_phase = (if exp_phase = ''liq'' then 0 else 1)"

definition single_phase_enthalpy :: "env \<Rightarrow> real list \<Rightarrow> real list \<Rightarrow> error + real list" where
  "single_phase_enthalpy E p T = zip_with (props_PT E) p T"

definition corrected_enthalpy ::
  "env \<Rightarrow> string \<Rightarrow> real list \<Rightarrow> real list \<Rightarrow> error + real list" where
  "corrected_enthalpy E exp_phase p T =
     ebind (single_phase_enthalpy E p T) (\<lambda>h.
     let phases = map2 (phase E) p T in
     if exp_phase \<notin> set phases then
       (let msk = map (\<lambda>ph. ph \<noteq> exp_phase) phases
        in Inr (mask_assign h msk
                  (map (\<lambda>x. props_PQ E x (quality exp_phase)) (mask_select p msk))))
     else Inr h)"

text \<open>The expected phases at inlet and outlet (lines 635-638).\<close>

definition exp_phases :: "string \<Rightarrow> error + string \<times> string" where
  "exp_phases pwr =
     (case map_of [(''Qcond'', (''gas'', ''liq'')), (''Qev'', (''liq'', ''gas'')),
                   (''Pcomp'', (''gas'', ''gas'')), (''Qloss_ev'', (''gas'', ''gas''))] pwr of
        None \<Rightarrow> Inl (KeyError pwr)
      | Some e \<Rightarrow> Inr e)"

definition heat_enthalpies ::
  "env \<Rightarrow> string \<Rightarrow> real list \<Rightarrow> real list \<Rightarrow> real list \<Rightarrow> real list
     \<Rightarrow> error + real list \<times> real list" where
  "heat_enthalpies E pwr pin Tin pout Tout =
     ebind (single_phase_enthalpy E pin Tin) (\<lambda>_.
     ebind (single_phase_enthalpy E pout Tout) (\<lambda>_.
     ebind (exp_phases pwr) (\<lambda>(exp_phase_in, exp_phase_out).
     ebind (corrected_enthalpy E exp_phase_in pin Tin) (\<lambda>hin.
     ebind (corrected_enthalpy E exp_phase_out pout Tout) (\<lambda>hout.
     Inr (hin, hout))))))"

definition heat_label :: "string \<Rightarrow> string" where
  "heat_label pwr =
     (if pwr = ''Qcond'' then ''$'' @ bs @ ''dot{Q}_{cond}$''
      else if pwr = ''Qev'' then ''$'' @ bs @ ''dot{Q}_{ev}$''
      else if pwr = ''Pcomp'' then ''$P_{comp}$''
      else ''$'' @ bs @ ''dot{Q}_{loss,ev}$'')"

text \<open>The method on the magnitudes in kg/s, Pa and K.\<close>

definition heat_magnitudes ::
  "env \<Rightarrow> string \<Rightarrow> real list \<Rightarrow> real list \<Rightarrow> real list \<Rightarrow> real list \<Rightarrow> real list
     \<Rightarrow> error + quantity" where
  "heat_magnitudes E pwr flow pin Tin pout Tout =
     ebind (heat_enthalpies E pwr pin Tin pout Tout) (\<lambda>(hin, hout).
     ebind (zip_with (\<lambda>a b. a - b) hout hin) (\<lambda>dh.
     ebind (zip_with (\<lambda>m d. m * d * (if pwr = ''Qcond'' then - 1 else 1)) flow dh) (\<lambda>w.
     Inr (Qty (map Num w) (Some ''W'') (Some (heat_label pwr))
            (Some (if pwr = ''Pcomp'' then ''mechanical power''
                   else ''heat transfer rate''))))))"

text \<open>
  The decorator \<^verbatim>\<open>ureg.wraps\<close> of lines 590-591 converts the five quantities and
  passes their magnitudes.
\<close>

definition magnitude_in :: "env \<Rightarrow> string \<Rightarrow> quantity \<Rightarrow> error + real list" where
  "magnitude_in E u q = ebind (to_units E (Some u) q) (\<lambda>q'. floats (magnitude q'))"

definition heat :: "env \<Rightarrow> string \<Rightarrow> quantity list \<Rightarrow> error + quantity" where
  "heat E pwr params =
     (case params of
        [flow, pin, Tin, pout, Tout] \<Rightarrow>
          ebind (magnitude_in E ''kg/s'' flow) (\<lambda>flow'.
          ebind (magnitude_in E ''Pa'' pin) (\<lambda>pin'.
          ebind (magnitude_in E ''K'' Tin) (\<lambda>Tin'.
          ebind (magnitude_in E ''Pa'' pout) (\<lambda>pout'.
          ebind (magnitude_in E ''K'' Tout) (\<lambda>Tout'.
          heat_magnitudes E pwr flow' pin' Tin' pout' Tout')))))
      | _ \<Rightarrow> Inl TypeError)"

section \<open>The quantity store\<close>

text \<open>
  \<^verbatim>\<open>DataTaker._build_quantities\<close> (base.py, lines 247-354) and \<^verbatim>\<open>DataTaker.get\<close>
  (lines 402-425) call each other.  \<open>build_quantities\<close> therefore takes the \<open>get\<close> it
  calls as its first argument, and \<open>get_body\<close> the \<open>_build_quantities\<close> it calls; the
  knot is tied at the end of the section.  A call of \<open>get\<close> returns the list of the
  requested quantities (one element for a single name) and the new state.
\<close>

type_synonym getter =
  "string \<Rightarrow> bool \<Rightarrow> kwargs \<Rightarrow> datataker \<Rightarrow> error + quantity list \<times> datataker"

type_synonym builder =
  "string list \<Rightarrow> kwargs \<Rightarrow> datataker \<Rightarrow> error + datataker"

text \<open>
  Taking the result of a call of \<open>get\<close> apart: the single quantity of a call with one
  name, and the tuple assignment \<^verbatim>\<open>a, b = self.get(...)\<close>, which raises ValueError
  for another number of values than two.
\<close>

definition unpack1 :: "'a list \<Rightarrow> error + 'a" where
  "unpack1 vals = (case vals of [a] \<Rightarrow> Inr a | _ \<Rightarrow> Inl TypeError)"

definition unpack2 :: "'a list \<Rightarrow> error + 'a \<times> 'a" where
  "unpack2 vals = (case vals of [a, b] \<Rightarrow> Inr (a, b) | _ \<Rightarrow> Inl ValueError)"

text \<open>
  Lines 261-263: the rows of \<^verbatim>\<open>raw_data\<close> selected by the keyword arguments.  A key
  that is no column raises KeyError.
\<close>

definition filter_rows :: "table \<Rightarrow> string \<Rightarrow> cell \<Rightarrow> error + table" where
  "filter_rows t key val =
     (case column t key of
        None \<Rightarrow> Inl (KeyError key)
      | Some c \<Rightarrow>
          (let msk = map (\<lambda>x. x = val) c
           in Inr \<lparr>n_rows = length (filter id msk),
                   column = (\<lambda>k. map_option (\<lambda>col. mask_select col msk) (column t k))\<rparr>))"

fun filter_kwargs :: "table \<Rightarrow> kwargs \<Rightarrow> error + table" where
  "filter_kwargs t [] = Inr t"
| "filter_kwargs t ((key, val) # kws) = ebind (filter_rows t key val) (\<lambda>t'. filter_kwargs t' kws)"

text \<open>
  Line 268: \<^verbatim>\<open>heating = np.count_nonzero(ref_dir) < len(ref_dir) / 2\<close>.  A number is
  non-zero when it is not 0, a text when it is not empty.
\<close>

fun nonzero :: "cell \<Rightarrow> bool" where
  "nonzero (Num x) = (x \<noteq> 0)"
| "nonzero (Txt t) = (t \<noteq> [])"

definition count_nonzero :: "cell list \<Rightarrow> nat" where
  "count_nonzero xs = length (filter nonzero xs)"

definition heating_mode :: "cell list \<Rightarrow> bool" where
  "heating_mode ref_dir = (real (count_nonzero ref_dir) < real (length ref_dir) / 2)"

text \<open>
  Lines 265-268.  \<open>heating\<close> is assigned only under the condition of line 265, and
  read only in the loops that run under the same condition; without it the model
  carries \<open>False\<close>, which nothing reads.
\<close>

definition mode_step :: "getter \<Rightarrow> kwargs \<Rightarrow> bool \<Rightarrow> datataker \<Rightarrow> error + bool \<times> datataker" where
  "mode_step g kwargs needed s =
     (if needed then
        ebind (g ''refdir'' False kwargs s) (\<lambda>(vals, s1).
        ebind (unpack1 vals) (\<lambda>ref_dir.
        Inr (heating_mode (magnitude ref_dir), s1)))
      else Inr (False, s))"

text \<open>Lines 270-278: one humidity ratio, \<open>ws\<close> or \<open>wr\<close>.\<close>

definition hum_ratio_step :: "getter \<Rightarrow> env \<Rightarrow> kwargs \<Rightarrow> string \<Rightarrow> datataker \<Rightarrow> error + datataker" where
  "hum_ratio_step g E kwargs w s =
     ebind (g (''T'' @ strip (CHR ''w'') w) False kwargs s) (\<lambda>(vals, s1).
     ebind (unpack1 vals) (\<lambda>Tq.
     ebind (magnitude_in E ''K'' Tq) (\<lambda>T.
     ebind (g (''RH'' @ strip (CHR ''w'') w) False kwargs s1) (\<lambda>(vals', s2).
     ebind (unpack1 vals') (\<lambda>RHq.
     ebind (magnitude_in E ''ratio'' RHq) (\<lambda>RH.
     ebind (zip_with (psychro E 101325) T RH) (\<lambda>W.
     ebind (to_units E (Some ''g/kg'')
              (Qty (map Num W) (Some ''ratio'')
                 (Some (''$'' @ bs @ ''omega_{'' @ strip (CHR ''w'') w @ ''}$''))
                 (Some ''absolute humidity''))) (\<lambda>q.
     Inr (store w q s2)))))))))"

text \<open>
  Lines 281-283: the compressor frequency.  The sentinel \<^verbatim>\<open>'UnderRange'\<close> becomes 0,
  then \<^verbatim>\<open>astype(float)\<close> converts every cell (ValueError for a text that is no
  number) and the result is halved.
\<close>

definition astype_float :: "env \<Rightarrow> cell \<Rightarrow> error + real" where
  "astype_float E c =
     (case c of
        Num x \<Rightarrow> Inr x
      | Txt t \<Rightarrow> (case float_of E t of None \<Rightarrow> Inl ValueError | Some x \<Rightarrow> Inr x))"

definition clean_f :: "env \<Rightarrow> cell list \<Rightarrow> error + real list" where
  "clean_f E raw_f =
     ebind (mapM (astype_float E) (map (\<lambda>c. if c = Txt ''UnderRange'' then Num 0 else c) raw_f))
       (\<lambda>f. Inr (map (\<lambda>x. x / 2) f))"

text \<open>
  Line 293: \<^verbatim>\<open>flowrt_r[f == 0] = 0\<close>.  A mask of another length than the array
  raises IndexError.
\<close>

definition clean_flowrt_r :: "real list \<Rightarrow> cell list \<Rightarrow> error + cell list" where
  "clean_flowrt_r f raw_flow =
     (if length f = length raw_flow
      then Inr (map2 (\<lambda>x c. if x = 0 then Num 0 else c) f raw_flow)
      else Inl IndexError)"

text \<open>
  \<^verbatim>\<open>raw_data[nconv.loc[name, 'col_names']].values\<close>: KeyError for a name without a
  row in the name converter, and for a column that the table does not have.
\<close>

definition nconv_loc :: "env \<Rightarrow> string \<Rightarrow> error + nconv_row" where
  "nconv_loc E name =
     (case name_converter E name of None \<Rightarrow> Inl (KeyError name) | Some r \<Rightarrow> Inr r)"

definition raw_column :: "table \<Rightarrow> string \<Rightarrow> error + cell list" where
  "raw_column t col = (case column t col of None \<Rightarrow> Inl (KeyError col) | Some c \<Rightarrow> Inr c)"

definition raw_values :: "env \<Rightarrow> table \<Rightarrow> string \<Rightarrow> error + cell list" where
  "raw_values E raw name = ebind (nconv_loc E name) (\<lambda>r. raw_column raw (col_names r))"

definition Q_nconv :: "env \<Rightarrow> string \<Rightarrow> cell list \<Rightarrow> error + quantity" where
  "Q_nconv E name m =
     ebind (nconv_loc E name) (\<lambda>r. Inr (Qty m (nc_units r) (labels r) (properties r)))"

text \<open>
  Lines 280-299: the cleaned quantities.  The two in-place writes of lines 282 and 293
  reach \<^verbatim>\<open>raw_data\<close> itself when pandas hands out a view.  They replace cells by the
  values that every later derivation would compute from them again, so the table of
  the model stays as loaded.
\<close>

definition to_clean_step :: "env \<Rightarrow> table \<Rightarrow> string list \<Rightarrow> datataker \<Rightarrow> error + datataker" where
  "to_clean_step E raw to_clean s =
     (if to_clean \<noteq> [] then
        ebind (raw_values E raw ''f'') (\<lambda>raw_f.
        ebind (clean_f E raw_f) (\<lambda>f.
        ebind (if ''f'' \<in> set to_clean
               then ebind (Q_nconv E ''f'' (map Num f)) (\<lambda>q. Inr (store ''f'' q s))
               else Inr s) (\<lambda>s1.
        if ''flowrt_r'' \<in> set to_clean then
          ebind (raw_values E raw ''flowrt_r'') (\<lambda>raw_flow.
          ebind (clean_flowrt_r f raw_flow) (\<lambda>flowrt_r.
          ebind (Q_nconv E ''flowrt_r'' flowrt_r) (\<lambda>q.
          Inr (store ''flowrt_r'' q s1))))
        else Inr s1)))
      else Inr s)"

text \<open>Lines 301-315: one heat transfer rate or the compressor power.\<close>

definition ref_states :: "bool \<Rightarrow> string \<Rightarrow> error + string" where
  "ref_states heating quantity =
     (case (if heating
            then map_of [(''Qcond'', ''pout T4 pout T6''), (''Qev'', ''pout T6 pin T9''),
                         (''Pcomp'', ''pin T1 pout T2'')] quantity
            else map_of [(''Qcond'', ''pout T9 pout T7''), (''Qev'', ''pout T7 pin T4''),
                         (''Pcomp'', ''pin T1 pout T2''), (''Qloss_ev'', ''pin T4 pin T1'')]
                   quantity) of
        None \<Rightarrow> Inl (KeyError quantity)
      | Some r \<Rightarrow> Inr r)"

definition dependent_step ::
  "getter \<Rightarrow> env \<Rightarrow> kwargs \<Rightarrow> bool \<Rightarrow> string \<Rightarrow> datataker \<Rightarrow> error + datataker" where
  "dependent_step g E kwargs heating quantity s =
     ebind (ref_states heating quantity) (\<lambda>rs.
     ebind (g (''flowrt_r '' @ rs) False kwargs s) (\<lambda>(heat_params, s1).
     ebind (heat E quantity heat_params) (\<lambda>pw.
     ebind (to_units E (Some ''kW'') pw) (\<lambda>pow_kW.
     Inr (store quantity pow_kW s1)))))"

text \<open>Lines 317-322: the electrical power.\<close>

definition pel_step :: "getter \<Rightarrow> env \<Rightarrow> kwargs \<Rightarrow> bool \<Rightarrow> datataker \<Rightarrow> error + datataker" where
  "pel_step g E kwargs needed s =
     (if needed then
        ebind (g ''Pa Pb'' False kwargs s) (\<lambda>(vals, s1).
        ebind (unpack2 vals) (\<lambda>(Pa, Pb).
        ebind (add_q E Pa Pb) (\<lambda>Pel.
        ebind (to_units E (Some ''kW'')
                 (Qty (magnitude Pel) (units Pel) (Some ''$P_{el}$'')
                    (Some ''electrical power''))) (\<lambda>q.
        Inr (store ''Pel'' q s1)))))
      else Inr s)"

text \<open>Lines 324-329: the elapsed time.\<close>

definition t_step :: "env \<Rightarrow> table \<Rightarrow> bool \<Rightarrow> datataker \<Rightarrow> error + datataker" where
  "t_step E raw needed s =
     (if needed then
        ebind (get_timestep_seconds E) (\<lambda>seconds.
        Inr (store ''t''
               (Qty (map (\<lambda>i. Num (real i * real_of_int seconds)) [0..<n_rows raw])
                  (Some ''seconds'') (Some ''$t$'') (Some ''time'')) s))
      else Inr s)"

text \<open>Lines 331-336: a quantity taken as it is.\<close>

definition as_is_step :: "env \<Rightarrow> table \<Rightarrow> string \<Rightarrow> datataker \<Rightarrow> error + datataker" where
  "as_is_step E raw quantity s =
     ebind (raw_values E raw quantity) (\<lambda>m.
     ebind (Q_nconv E quantity m) (\<lambda>q.
     Inr (store quantity q s)))"

text \<open>Lines 338-354: the enthalpy of one state of the cycle.\<close>

definition pstate :: "bool \<Rightarrow> nat \<Rightarrow> error + string" where
  "pstate heating state =
     (if heating \<and> state \<in> set [7, 8, 9, 1] \<or> \<not> heating \<and> state \<in> set [6, 5, 4, 3, 1]
      then Inr ''in''
      else if heating \<and> state \<in> set [2..<7] \<or> \<not> heating \<and> state \<in> set [2, 9, 8, 7]
      then Inr ''out''
      else Inl ValueError)"

definition enthalpy_step ::
  "getter \<Rightarrow> env \<Rightarrow> kwargs \<Rightarrow> bool \<Rightarrow> string \<Rightarrow> datataker \<Rightarrow> error + datataker" where
  "enthalpy_step g E kwargs heating enthalpy s =
     ebind (py_int (strip (CHR ''h'') enthalpy)) (\<lambda>state.
     ebind (pstate heating state) (\<lambda>ps.
     ebind (g (''p'' @ ps @ '' T'' @ str_nat state) False kwargs s) (\<lambda>(vals, s1).
     ebind (unpack2 vals) (\<lambda>(p, T).
     ebind (magnitude_in E ''Pa'' p) (\<lambda>p'.
     ebind (magnitude_in E ''K'' T) (\<lambda>T'.
     ebind (single_phase_enthalpy E p' T') (\<lambda>h.
     ebind (to_units E (Some ''kJ/kg'')
              (Qty (map Num h) (Some ''J/kg'') (Some (''$h_'' @ str_nat state @ ''$''))
                 (Some ''enthalpy''))) (\<lambda>q.
     Inr (store enthalpy q s1)))))))))"

text \<open>
  The method.  \<open>names\<close> lists the elements of the set \<^verbatim>\<open>set(quantities)\<close>; the loops
  over the categories visit them in the order of this list (Python leaves the order of
  a set open).
\<close>

definition enthalpy_names :: "string list" where
  "enthalpy_names = map (\<lambda>i. ''h'' @ str_nat (i + 1)) [0..<9]"

definition build_quantities :: "getter \<Rightarrow> env \<Rightarrow> builder" where
  "build_quantities g E names kwargs s =
     (let hum_ratios = filter (\<lambda>q. q \<in> set [''ws'', ''wr'']) names;
          to_clean = filter (\<lambda>q. q \<in> set [''f'', ''flowrt_r'']) names;
          dependent =
            filter (\<lambda>q. q \<in> set [''Qcond'', ''Qev'', ''Pcomp'', ''Pel'', ''Qloss_ev'', ''t'']) names;
          enthalpies = filter (\<lambda>q. q \<in> set enthalpy_names) names;
          as_is =
            filter (\<lambda>q. q \<notin> set hum_ratios \<and> q \<notin> set to_clean \<and> q \<notin> set dependent \<and>
                        q \<notin> set enthalpies) names;
          dependent_heat = filter (\<lambda>q. q \<notin> set [''Pel'', ''t'']) dependent
      in
      ebind (filter_kwargs (raw_data E) kwargs) (\<lambda>raw.
      ebind (mode_step g kwargs (enthalpies \<noteq> [] \<or> dependent_heat \<noteq> []) s) (\<lambda>(heating, s1).
      ebind (foldM (hum_ratio_step g E kwargs) hum_ratios s1) (\<lambda>s2.
      ebind (to_clean_step E raw to_clean s2) (\<lambda>s3.
      ebind (foldM (dependent_step g E kwargs heating) dependent_heat s3) (\<lambda>s4.
      ebind (pel_step g E kwargs (''Pel'' \<in> set dependent) s4) (\<lambda>s5.
      ebind (t_step E raw (''t'' \<in> set dependent) s5) (\<lambda>s6.
      ebind (foldM (as_is_step E raw) as_is s6) (\<lambda>s7.
      foldM (enthalpy_step g E kwargs heating) enthalpies s7)))))))))"

text \<open>
  Lines 402-408 of \<open>get\<close>: a word \<^verbatim>\<open>name/unit\<close> asks for \<open>name\<close> in \<open>unit\<close>; a later
  unit for the same name replaces an earlier one.
\<close>

definition split_unit :: "string \<Rightarrow> string \<times> string option" where
  "split_unit v =
     (if CHR ''/'' \<in> set v
      then (takeWhile (\<lambda>c. c \<noteq> CHR ''/'') v, Some (tl (dropWhile (\<lambda>c. c \<noteq> CHR ''/'') v)))
      else (v, None))"

fun spec_units :: "string list \<Rightarrow> (string \<rightharpoonup> string) \<Rightarrow> (string \<rightharpoonup> string)" where
  "spec_units [] m = m"
| "spec_units (v # vs) m =
     (case split_unit v of
        (q, Some u) \<Rightarrow> spec_units vs (m(q \<mapsto> u))
      | (q, None) \<Rightarrow> spec_units vs m)"

text \<open>\<^verbatim>\<open>update_units\<close> (lines 418-419); a name that is not in the cache raises KeyError.\<close>

definition update_units ::
  "env \<Rightarrow> (string \<rightharpoonup> string) \<Rightarrow> datataker \<Rightarrow> string \<Rightarrow> error + quantity" where
  "update_units E su s quantity =
     (case quantities s quantity of
        None \<Rightarrow> Inl (KeyError quantity)
      | Some q \<Rightarrow> to_units E (su quantity) q)"

text \<open>
  The method \<open>get\<close>.  Two dictionaries are equal when they map the same keys to the
  same values.  For several names Python returns a generator; the model evaluates it
  at once, as the callers in this file all do.  \<^verbatim>\<open>quantities[0]\<close> raises IndexError
  when no name was given.  \<open>requested\<close> is the list \<open>quantities\<close> of lines 403-407: the
  names asked for, without their units.
\<close>

definition requested :: "string \<Rightarrow> string list" where
  "requested variables = map (\<lambda>v. fst (split_unit v)) (split variables)"

definition get_body :: "builder \<Rightarrow> env \<Rightarrow> getter" where
  "get_body build E variables update kwargs s =
     (let quantities_list = requested variables;
          su = spec_units (split variables) Map.empty
      in
      ebind (if update \<or> map_of (groups s) \<noteq> map_of kwargs
             then build (remdups quantities_list) kwargs (clear s)
             else build (filter (\<lambda>q. quantities s q = None) (remdups quantities_list)) kwargs s)
        (\<lambda>s1.
      let s2 = s1\<lparr>groups := kwargs\<rparr> in
      ebind (if quantities_list = [] then Inl IndexError
             else mapM (update_units E su s2) quantities_list) (\<lambda>vals.
      Inr (vals, s2))))"

text \<open>
  Tying the knot.  \<open>_build_quantities\<close> calls \<open>get\<close> only for names of the categories
  \<open>as_is\<close> and \<open>to_clean\<close>, whose derivation calls \<open>get\<close> no further: the recursion is
  two calls deep.  \<open>get0\<close> is \<open>get\<close> at the inner level, where the \<open>get\<close> handed to
  \<open>_build_quantities\<close> is never called (\<open>no_get\<close>).
\<close>

definition no_get :: getter where
  "no_get variables update kwargs s = Inl TypeError"

definition get0 :: "env \<Rightarrow> getter" where
  "get0 E = get_body (build_quantities no_get E) E"

definition get :: "env \<Rightarrow> getter" where
  "get E = get_body (build_quantities (get0 E) E) E"

section \<open>A small data set\<close>

text \<open>
  Two samples, ten seconds apart, used where a statement below is evaluated on concrete
  data.  The property functions are simple stand-ins: the single-phase enthalpy is
  \<open>p + T\<close>, the saturated enthalpy is \<open>1000 + q\<close>, and the fluid is a gas from 300 K on
  and two-phase below.  Conversions leave a quantity as it is.
\<close>

definition example_table :: table where
  "example_table =
     \<lparr>n_rows = 2,
      column = map_of
        [(''Compressor frequency'', [Txt ''UnderRange'', Num 100]),
         (''Refrigerant flow'', [Num 3, Num 5]),
         (''Direction'', [Num 0, Num 1]),
         (''T1'', [Num 280, Num 320])]\<rparr>"

definition example_nconv :: "string \<rightharpoonup> nconv_row" where
  "example_nconv =
     map_of
       [(''f'', \<lparr>col_names = ''Compressor frequency'', nc_units = Some ''Hz'',
                 labels = Some ''$f$'', properties = Some ''frequency''\<rparr>),
        (''flowrt_r'', \<lparr>col_names = ''Refrigerant flow'', nc_units = Some ''kg/s'',
                 labels = Some ''$m_r$'', properties = Some ''mass flow rate''\<rparr>),
        (''refdir'', \<lparr>col_names = ''Direction'', nc_units = None,
                 labels = None, properties = None\<rparr>),
        (''T1'', \<lparr>col_names = ''T1'', nc_units = Some ''K'',
                 labels = Some ''$T_1$'', properties = Some ''temperature''\<rparr>)]"

definition example_env :: env where
  "example_env =
     \<lparr>raw_data = example_table,
      timestamp = [0, 10],
      name_converter = example_nconv,
      props_PT = (\<lambda>p T. p + T),
      props_PQ = (\<lambda>p q. 1000 + q),
      phase = (\<lambda>p T. if T < 300 then ''twophase'' else ''gas''),
      psychro = (\<lambda>P T RH. RH),
      to_units = (\<lambda>u q. Inr q),
      add_q = (\<lambda>a b. Inr a),
      float_of = (\<lambda>t. None)\<rparr>"

definition new_datataker :: datataker where
  "new_datataker = \<lparr>quantities = Map.empty, groups = [], trace = []\<rparr>"

section \<open>Reading the trace\<close>

text \<open>
  Two relations between the state before and after a piece of the program, used to
  state what the store does.

  \<open>logged N s s'\<close>: the trace has grown by some events; every entry of the cache
  after is an entry of the cache before or was assigned on the way (and the assignment
  is in the new events); every name of \<open>N\<close> was assigned on the way.

  \<open>preserving D kw s s'\<close>, for a state \<open>s\<close> whose filter is \<open>kw\<close> and whose cache holds
  the names \<open>D\<close>: the filter is still \<open>kw\<close>, the cache was not emptied, no name of \<open>D\<close> was
  assigned, and the entries of \<open>D\<close> are what they were.
\<close>

definition logged :: "string set \<Rightarrow> datataker \<Rightarrow> datataker \<Rightarrow> bool" where
  "logged N s s' =
     (\<exists>new. trace s' = trace s @ new \<and>
        (\<forall>n q. quantities s' n = Some q \<longrightarrow> quantities s n = Some q \<or> Derived n \<in> set new) \<and>
        (\<forall>n\<in>N. Derived n \<in> set new))"

definition preserving :: "string set \<Rightarrow> kwargs \<Rightarrow> datataker \<Rightarrow> datataker \<Rightarrow> bool" where
  "preserving D kw s s' =
     (map_of (groups s) = map_of kw \<and> D \<subseteq> dom (quantities s) \<longrightarrow>
        map_of (groups s') = map_of kw \<and> D \<subseteq> dom (quantities s') \<and>
        (\<exists>new. trace s' = trace s @ new \<and> Cleared \<notin> set new \<and>
           (\<forall>n. Derived n \<in> set new \<longrightarrow> n \<notin> D) \<and>
           (\<forall>n\<in>D. quantities s' n = quantities s n)))"

definition getter_ok :: "getter \<Rightarrow> bool" where
  "getter_ok g =
     (\<forall>v u kw s vals s'. g v u kw s = Inr (vals, s') \<longrightarrow>
        logged {} s s' \<and> (\<not> u \<longrightarrow> preserving (dom (quantities s)) kw s s'))"

definition builder_ok :: "builder \<Rightarrow> bool" where
  "builder_ok b =
     (\<forall>names kw s s'. b names kw s = Inr s' \<longrightarrow>
        logged (set names) s s' \<and> (\<forall>D. set names \<inter> D = {} \<longrightarrow> preserving D kw s s'))"

text \<open>
  The names whose derivation makes no call of \<open>get\<close>: those of the categories
  \<open>as_is\<close> and \<open>to_clean\<close>.
\<close>

definition leaf_name :: "string \<Rightarrow> bool" where
  "leaf_name n =
     (n \<notin> set [''ws'', ''wr''] \<and>
      n \<notin> set [''Qcond'', ''Qev'', ''Pcomp'', ''Pel'', ''Qloss_ev'', ''t''] \<and>
      n \<notin> set enthalpy_names)"

section \<open>Basic facts\<close>

lemma ebind_simps [simp]: "ebind (Inl e) f = Inl e" "ebind (Inr x) f = f x"
  by (simp_all add: ebind_def)

lemma ebind_eq_Inr: "(ebind m f = Inr y) = (\<exists>x. m = Inr x \<and> f x = Inr y)"
  by (cases m) simp_all

lemma getitem_nat: "i < length xs \<Longrightarrow> getitem xs (int i) = Inr (xs ! i)"
  by (simp add: getitem_def)

lemma getitem_last: "xs \<noteq> [] \<Longrightarrow> getitem xs (- 1) = Inr (last xs)"
  by (cases xs rule: rev_cases) (simp_all add: getitem_def nat_add_distrib nth_append)

lemma getitem_empty: "getitem [] i = Inl IndexError"
  by (simp add: getitem_def)

lemma getitem_ge: "length xs \<le> i \<Longrightarrow> getitem xs (int i) = Inl IndexError"
  by (simp add: getitem_def)

lemma getitem_pred:
  "0 < d \<Longrightarrow> d \<le> length xs \<Longrightarrow> getitem xs (int d - 1) = Inr (xs ! (d - 1))"
  by (cases d) (simp_all add: getitem_def)

lemma sqrt_gt_iff: "0 \<le> v \<Longrightarrow> 0 \<le> s \<Longrightarrow> (sqrt v > s) = (v > s\<^sup>2)"
  by (metis real_sqrt_less_iff real_sqrt_abs abs_of_nonneg)

lemma upt_2: "[0..<2] = [0, 1]"
  by (simp add: upt_rec)

lemma upt_7: "[0..<7] = [0, 1, 2, 3, 4, 5, 6]"
  by (simp add: upt_rec)

section \<open>The segmenter on two inputs\<close>

lemmas seg_defs =
  steady_state_steps_number_def empty_like_def getitem_def setitem_def seg_step_def
  slice_fill_def slice_fill_from_def slice_bound_def sqrt_gt_iff Let_def power2_eq_square

text \<open>
  Claim C1 (the durations partition the samples into runs whose lengths sum to N, each
  sample carrying the length of its run).  The code does not do this.  On the
  frequencies 50, 90 Hz with the limit 2 Hz, and the work arrays \<open>mean\<close> and \<open>var\<close>
  allocated with zeros, the first pass of the loop reads \<^verbatim>\<open>mean[-1]\<close> and
  \<^verbatim>\<open>var[-1]\<close> (the last, never written cells), finds a deviation of 45 Hz and resets
  \<open>buffer\<close> to 0; the slice \<^verbatim>\<open>steps_number[-2:0]\<close> is empty, and the final
  \<^verbatim>\<open>steps_number[-0:] = 0\<close> writes 0 to both samples.  Two samples with the run
  length 0 are no partition of two samples into runs.
\<close>

theorem steps_number_two_samples:
  "steady_state_steps_number (\<lambda>_. 0) (\<lambda>_. 0) gs [50, 90] 2 = Inr [0, 0]"
  by (simp add: seg_defs upt_2)

text \<open>
  Claim C2 (the input 50, 50, 50, 50, 90, 90, 90 with the limit 2 Hz gives a run of
  length 4 over the samples 0-3 and a run of length 3 over the samples 4-6).  The code
  returns the counts 3, 3, 3 for the samples 0-2 and 2, 2 for the samples 5-6, and never
  writes the samples 3 and 4, which keep what the allocation left there (\<open>gs 3\<close> and
  \<open>gs 4\<close>); \<open>mean\<close> and \<open>var\<close> are allocated with zeros as above.
\<close>

theorem steps_number_spec_example:
  "steady_state_steps_number (\<lambda>_. 0) (\<lambda>_. 0) gs [50, 50, 50, 50, 90, 90, 90] 2 =
     Inr [3, 3, 3, gs 3, gs 4, 2, 2]"
  by (simp add: seg_defs upt_7 eval_nat_numeral)

section \<open>The binner\<close>

lemma lim_le_refl [simp]: "lim_le a a"
  by (cases a) simp_all

lemma lim_le_trans: "lim_le a b \<Longrightarrow> lim_le b c \<Longrightarrow> lim_le a c"
  by (cases a; cases b; cases c) simp_all

lemma sorted_lim_nth:
  assumes "sorted_wrt lim_le bins" "i \<le> j" "j < length bins"
  shows "lim_le (bins ! i) (bins ! j)"
proof (cases "i = j")
  case True then show ?thesis by simp
next
  case False
  with assms have "i < j" by simp
  with assms show ?thesis by (simp add: sorted_wrt_nth_less)
qed

lemma searchsorted_right_le: "searchsorted_right a v \<le> length a"
  by (simp add: searchsorted_right_def length_takeWhile_le)

text \<open>On non-decreasing bins the index is determined by its two neighbours.\<close>

lemma searchsorted_right_eq:
  assumes srt: "sorted_wrt lim_le bins"
    and n: "n \<le> length bins"
    and below: "0 < n \<Longrightarrow> lim_le (bins ! (n - 1)) (Fin x)"
    and above: "n < length bins \<Longrightarrow> \<not> lim_le (bins ! n) (Fin x)"
  shows "searchsorted_right bins x = n"
proof -
  have "takeWhile (\<lambda>b. lim_le b (Fin x)) bins = take n bins"
  proof (rule takeWhile_eq_take_P_nth)
    fix i assume i: "i < n" "i < length bins"
    then have "lim_le (bins ! i) (bins ! (n - 1))"
      using srt n by (intro sorted_lim_nth) auto
    moreover have "lim_le (bins ! (n - 1)) (Fin x)" using below i by simp
    ultimately show "lim_le (bins ! i) (Fin x)" by (rule lim_le_trans)
  next
    assume "n < length bins" then show "\<not> lim_le (bins ! n) (Fin x)" by (rule above)
  qed
  then show ?thesis using n by (simp add: searchsorted_right_def)
qed

lemma bin_label_low:
  "dl \<noteq> [] \<Longrightarrow> bin_label lb ub dl (- 1) = Inr (if lb then Some (Lbound (dl ! 0)) else None)"
  using getitem_nat [of 0 dl] by (simp add: bin_label_def)

lemma bin_label_high:
  "2 \<le> length dl \<Longrightarrow>
   bin_label lb ub dl (int (length dl) - 1) = Inr (if ub then Some (Ubound (last dl)) else None)"
  by (auto simp: bin_label_def getitem_last)

lemma bin_label_between:
  assumes "Suc k < length dl"
  shows "bin_label lb ub dl (int (Suc k) - 1) = Inr (Some (Between (dl ! k) (dl ! Suc k)))"
proof -
  have "getitem dl (int k) = Inr (dl ! k)" "getitem dl (int k + 1) = Inr (dl ! Suc k)"
    using assms getitem_nat [of k dl] getitem_nat [of "Suc k" dl] by (simp_all add: add.commute)
  then show ?thesis using assms by (simp add: bin_label_def)
qed

lemma bin_label_total:
  assumes "d \<le> length dl" "dl \<noteq> []"
  shows "\<exists>l. bin_label lb ub dl (int d - 1) = Inr l"
proof -
  consider "d = 0" | "d = length dl" "d \<noteq> 0" | "0 < d" "d < length dl" using assms by linarith
  then show ?thesis
  proof cases
    case 1 then show ?thesis using assms by (simp add: bin_label_low)
  next
    case 2 then show ?thesis using assms by (simp add: bin_label_def getitem_last)
  next
    case 3
    then have "getitem dl (int d - 1) = Inr (dl ! (d - 1))" "getitem dl (int d) = Inr (dl ! d)"
      by (simp_all add: getitem_pred getitem_nat)
    with 3 show ?thesis by (simp add: bin_label_def)
  qed
qed

lemma bin_loop_total:
  assumes "\<forall>d \<in> set idx. d \<le> length dl" "dl \<noteq> []"
  shows "\<exists>ls. bin_loop lb ub dl idx = Inr ls \<and> length ls = length idx"
  using assms
proof (induction idx)
  case Nil then show ?case by simp
next
  case (Cons d ds)
  then obtain l where "bin_label lb ub dl (int d - 1) = Inr l"
    using bin_label_total [of d dl lb ub] by auto
  moreover obtain ls where "bin_loop lb ub dl ds = Inr ls" "length ls = length ds"
    using Cons by auto
  ultimately show ?case by simp
qed

lemma bin_loop_nth:
  "bin_loop lb ub dl idx = Inr ls \<Longrightarrow> i < length idx \<Longrightarrow>
     bin_label lb ub dl (int (idx ! i) - 1) = Inr (ls ! i)"
proof (induction idx arbitrary: ls i)
  case Nil then show ?case by simp
next
  case (Cons d ds)
  then show ?case by (cases i) (auto simp: ebind_eq_Inr)
qed

lemma digitize_bound:
  "digitize x bins = Inr idx \<Longrightarrow> (\<forall>d \<in> set idx. d \<le> length bins) \<and> length idx = length x"
  by (auto simp: digitize_def Let_def searchsorted_right_le split: if_splits)

lemma digitize_fail: "monotonicity bins = 0 \<Longrightarrow> digitize x bins = Inl ValueError"
  by (simp add: digitize_def)

lemma digitize_ok: "monotonicity bins \<noteq> 0 \<Longrightarrow> \<exists>idx. digitize x bins = Inr idx"
  by (simp add: digitize_def Let_def)

lemma digitize_sorted:
  "sorted_wrt lim_le bins \<Longrightarrow> digitize x bins = Inr (map (searchsorted_right bins) x)"
  by (simp add: digitize_def monotonicity_def)

lemma explicit_limits_Nil [simp]: "explicit_limits [] = []"
  by (simp add: explicit_limits_def include_lb_def include_ub_def)

lemma explicit_limits_nonempty: "explicit_limits limits \<noteq> [] \<Longrightarrow> limits \<noteq> []"
  by auto

lemma to_dimlimits_short: "length ls < 2 \<Longrightarrow> to_dimlimits ls = Inl IndexError"
  using getitem_ge [of ls 1] by (simp add: to_dimlimits_def)

lemma to_dimlimits_ok:
  "2 \<le> length ls \<Longrightarrow> to_dimlimits ls = Inr (map (dimlimit_of (ls ! 1)) ls)"
  using getitem_nat [of 1 ls] by (simp add: to_dimlimits_def)

lemma sst_bins_Nil: "sst_bins [] sst = Inl IndexError"
  by (simp add: sst_bins_def getitem_empty)

lemma sst_bins_nonempty:
  assumes "limits \<noteq> []"
  shows "sst_bins limits sst =
     ebind (to_dimlimits (explicit_limits limits)) (\<lambda>dimlimits.
     ebind (digitize sst (explicit_limits limits)) (\<lambda>idx.
     bin_loop (include_lb limits) (include_ub limits) dimlimits idx))"
proof -
  have "getitem limits 0 = Inr (hd limits)"
    using assms getitem_nat [of 0 limits] by (simp add: hd_conv_nth)
  then show ?thesis using assms
    by (simp add: sst_bins_def getitem_last include_lb_def include_ub_def Let_def)
qed

lemma sst_bins_sorted:
  assumes srt: "sorted_wrt lim_le (explicit_limits limits)"
    and len: "2 \<le> length (explicit_limits limits)"
  shows "\<exists>ls. sst_bins limits sst = Inr ls \<and> length ls = length sst \<and>
           (\<forall>i<length sst.
              bin_label (include_lb limits) (include_ub limits)
                (map (dimlimit_of (explicit_limits limits ! 1)) (explicit_limits limits))
                (int (searchsorted_right (explicit_limits limits) (sst ! i)) - 1) = Inr (ls ! i))"
proof -
  let ?ex = "explicit_limits limits"
  let ?dl = "map (dimlimit_of (?ex ! 1)) ?ex"
  let ?idx = "map (searchsorted_right ?ex) sst"
  have ne: "limits \<noteq> []" using len explicit_limits_nonempty [of limits] by auto
  have "\<exists>ls. bin_loop (include_lb limits) (include_ub limits) ?dl ?idx = Inr ls \<and>
          length ls = length ?idx"
    using len by (intro bin_loop_total) (auto simp: searchsorted_right_le)
  then obtain ls where ls: "bin_loop (include_lb limits) (include_ub limits) ?dl ?idx = Inr ls"
    "length ls = length sst" by auto
  have "sst_bins limits sst = Inr ls"
    using ne len srt ls by (simp add: sst_bins_nonempty to_dimlimits_ok digitize_sorted)
  moreover have "\<forall>i<length sst. bin_label (include_lb limits) (include_ub limits) ?dl
           (int (searchsorted_right ?ex (sst ! i)) - 1) = Inr (ls ! i)"
    using bin_loop_nth [OF ls(1)] by auto
  ultimately show ?thesis using ls(2) by blast
qed

lemmas bin_defs =
  sst_bins_def to_dimlimits_def dimlimit_of_def explicit_limits_def include_lb_def
  include_ub_def getitem_def digitize_def monotonicity_def searchsorted_right_def
  bin_label_def Let_def

lemma sst_bins_example:
  "sst_bins [NegInf, Fin 60, Fin 1800, Fin 3600, PosInf] [1800] =
     Inr [Some (Between (Fin 30, Minutes) (Fin 60, Minutes))]"
  by (simp add: bin_defs)

text \<open>
  Claim C8 (half-open bins).  First the example of the claim: with the limits
  \<open>-\<infinity>\<close>, 1, 30, 60 minutes, \<open>\<infinity>\<close> (in seconds, as the method receives them) a duration of
  exactly 30 minutes is labelled with the bin from 30 to 60 minutes.  Then the rule, for
  explicit limits in ascending order (at least two of them, as the method needs): the
  method returns one label per sample, and for each sample
  \<^item> a duration below the first explicit limit gets the label \<open>Lbound\<close> of that limit if
    \<open>include_lb\<close> is set, and \<open>None\<close> otherwise;
  \<^item> a duration at or above the last explicit limit gets the label \<open>Ubound\<close> of that
    limit if \<open>include_ub\<close> is set, and \<open>None\<close> otherwise;
  \<^item> a duration with \<open>limits[k] \<le> duration < limits[k+1]\<close> gets the label \<open>Between\<close> of
    these two limits.
\<close>

theorem sst_bins_half_open:
  "sst_bins [NegInf, Fin 60, Fin 1800, Fin 3600, PosInf] [1800] =
     Inr [Some (Between (Fin 30, Minutes) (Fin 60, Minutes))] \<and>
   (sorted_wrt lim_le (explicit_limits limits) \<and> 2 \<le> length (explicit_limits limits) \<longrightarrow>
     (\<exists>ls. sst_bins limits sst = Inr ls \<and> length ls = length sst \<and>
        (\<forall>i<length sst.
           (\<not> lim_le (explicit_limits limits ! 0) (Fin (sst ! i)) \<longrightarrow>
              ls ! i = (if include_lb limits
                        then Some (Lbound (dimlimit_of (explicit_limits limits ! 1)
                                             (explicit_limits limits ! 0)))
                        else None)) \<and>
           (lim_le (last (explicit_limits limits)) (Fin (sst ! i)) \<longrightarrow>
              ls ! i = (if include_ub limits
                        then Some (Ubound (dimlimit_of (explicit_limits limits ! 1)
                                             (last (explicit_limits limits))))
                        else None)) \<and>
           (\<forall>k. Suc k < length (explicit_limits limits) \<and>
                lim_le (explicit_limits limits ! k) (Fin (sst ! i)) \<and>
                \<not> lim_le (explicit_limits limits ! Suc k) (Fin (sst ! i)) \<longrightarrow>
              ls ! i = Some (Between (dimlimit_of (explicit_limits limits ! 1)
                                        (explicit_limits limits ! k))
                                     (dimlimit_of (explicit_limits limits ! 1)
                                        (explicit_limits limits ! Suc k)))))))"
proof (intro conjI impI)
  show "sst_bins [NegInf, Fin 60, Fin 1800, Fin 3600, PosInf] [1800] =
     Inr [Some (Between (Fin 30, Minutes) (Fin 60, Minutes))]"
    by (rule sst_bins_example)
next
  let ?ex = "explicit_limits limits"
  let ?dim = "dimlimit_of (?ex ! 1)"
  let ?dl = "map ?dim ?ex"
  assume a: "sorted_wrt lim_le ?ex \<and> 2 \<le> length ?ex"
  then have srt: "sorted_wrt lim_le ?ex" and len: "2 \<le> length ?ex" by simp_all
  obtain ls where ls: "sst_bins limits sst = Inr ls" "length ls = length sst"
    and lab: "\<And>i. i < length sst \<Longrightarrow>
       bin_label (include_lb limits) (include_ub limits) ?dl
         (int (searchsorted_right ?ex (sst ! i)) - 1) = Inr (ls ! i)"
    using sst_bins_sorted [OF srt len, of sst] by blast
  have dl: "?dl \<noteq> []" "2 \<le> length ?dl" "length ?dl = length ?ex" using len by auto
  have "\<forall>i<length sst.
           (\<not> lim_le (?ex ! 0) (Fin (sst ! i)) \<longrightarrow>
              ls ! i = (if include_lb limits then Some (Lbound (?dim (?ex ! 0))) else None)) \<and>
           (lim_le (last ?ex) (Fin (sst ! i)) \<longrightarrow>
              ls ! i = (if include_ub limits then Some (Ubound (?dim (last ?ex))) else None)) \<and>
           (\<forall>k. Suc k < length ?ex \<and> lim_le (?ex ! k) (Fin (sst ! i)) \<and>
                \<not> lim_le (?ex ! Suc k) (Fin (sst ! i)) \<longrightarrow>
              ls ! i = Some (Between (?dim (?ex ! k)) (?dim (?ex ! Suc k))))"
  proof (intro allI impI conjI)
    fix i assume i: "i < length sst" and lo: "\<not> lim_le (?ex ! 0) (Fin (sst ! i))"
    have "searchsorted_right ?ex (sst ! i) = 0"
      using srt lo by (intro searchsorted_right_eq) auto
    then have "bin_label (include_lb limits) (include_ub limits) ?dl (- 1) = Inr (ls ! i)"
      using lab [OF i] by simp
    then have "ls ! i = (if include_lb limits then Some (Lbound (?dl ! 0)) else None)"
      using bin_label_low [OF dl(1), of "include_lb limits" "include_ub limits"] by simp
    moreover have "?dl ! 0 = ?dim (?ex ! 0)" using len by (intro nth_map) auto
    ultimately show "ls ! i = (if include_lb limits then Some (Lbound (?dim (?ex ! 0))) else None)"
      by simp
  next
    fix i assume i: "i < length sst" and hi: "lim_le (last ?ex) (Fin (sst ! i))"
    have "last ?ex = ?ex ! (length ?ex - 1)" using len by (intro last_conv_nth) auto
    then have "searchsorted_right ?ex (sst ! i) = length ?ex"
      using srt hi by (intro searchsorted_right_eq) auto
    then have "bin_label (include_lb limits) (include_ub limits) ?dl (int (length ?dl) - 1)
                 = Inr (ls ! i)"
      using lab [OF i] by simp
    moreover have "last ?dl = ?dim (last ?ex)" using len by (intro last_map) auto
    ultimately show "ls ! i = (if include_ub limits then Some (Ubound (?dim (last ?ex))) else None)"
      using bin_label_high [OF dl(2), of "include_lb limits" "include_ub limits"] by simp
  next
    fix i k assume i: "i < length sst"
      and k: "Suc k < length ?ex \<and> lim_le (?ex ! k) (Fin (sst ! i)) \<and>
              \<not> lim_le (?ex ! Suc k) (Fin (sst ! i))"
    have "searchsorted_right ?ex (sst ! i) = Suc k"
      using srt k by (intro searchsorted_right_eq) auto
    then have "bin_label (include_lb limits) (include_ub limits) ?dl (int (Suc k) - 1)
                 = Inr (ls ! i)"
      using lab [OF i] by simp
    moreover have "Suc k < length ?dl" using k by simp
    ultimately show "ls ! i = Some (Between (?dim (?ex ! k)) (?dim (?ex ! Suc k)))"
      using k by (simp add: bin_label_between del: of_nat_Suc)
  qed
  with ls show "\<exists>ls. sst_bins limits sst = Inr ls \<and> length ls = length sst \<and>
        (\<forall>i<length sst.
           (\<not> lim_le (?ex ! 0) (Fin (sst ! i)) \<longrightarrow>
              ls ! i = (if include_lb limits then Some (Lbound (?dim (?ex ! 0))) else None)) \<and>
           (lim_le (last ?ex) (Fin (sst ! i)) \<longrightarrow>
              ls ! i = (if include_ub limits then Some (Ubound (?dim (last ?ex))) else None)) \<and>
           (\<forall>k. Suc k < length ?ex \<and> lim_le (?ex ! k) (Fin (sst ! i)) \<and>
                \<not> lim_le (?ex ! Suc k) (Fin (sst ! i)) \<longrightarrow>
              ls ! i = Some (Between (?dim (?ex ! k)) (?dim (?ex ! Suc k)))))"
    by blast
qed

theorem sst_bins_half_open_witness:
  "sorted_wrt lim_le (explicit_limits [NegInf, Fin 60, Fin 1800, Fin 3600, PosInf]) \<and>
   2 \<le> length (explicit_limits [NegInf, Fin 60, Fin 1800, Fin 3600, PosInf]) \<and>
   \<not> lim_le (explicit_limits [NegInf, Fin 60, Fin 1800, Fin 3600, PosInf] ! 0) (Fin 30) \<and>
   lim_le (last (explicit_limits [NegInf, Fin 60, Fin 1800, Fin 3600, PosInf])) (Fin 4000) \<and>
   lim_le (explicit_limits [NegInf, Fin 60, Fin 1800, Fin 3600, PosInf] ! 1) (Fin 1800) \<and>
   \<not> lim_le (explicit_limits [NegInf, Fin 60, Fin 1800, Fin 3600, PosInf] ! 2) (Fin 1800) \<and>
   sst_bins [NegInf, Fin 60, Fin 1800, Fin 3600, PosInf] [30, 1800, 4000] =
     Inr [Some (Lbound (Fin 1, Minutes)),
          Some (Between (Fin 30, Minutes) (Fin 60, Minutes)),
          Some (Ubound (Fin 60, Minutes))]"
proof -
  let ?L = "[NegInf, Fin 60, Fin 1800, Fin 3600, PosInf]"
  let ?S = "[30, 1800, 4000] :: real list"
  have ex: "explicit_limits ?L = [Fin 60, Fin 1800, Fin 3600]"
    by (simp add: explicit_limits_def include_lb_def include_ub_def)
  have flags: "include_lb ?L" "include_ub ?L"
    by (simp_all add: include_lb_def include_ub_def)
  have hyp: "sorted_wrt lim_le (explicit_limits ?L) \<and> 2 \<le> length (explicit_limits ?L)"
    by (simp add: ex)
  from sst_bins_half_open [of ?L ?S] hyp
  obtain ls where ls: "sst_bins ?L ?S = Inr ls" and len: "length ls = length ?S"
    and rule: "\<forall>i<length ?S.
           (\<not> lim_le (explicit_limits ?L ! 0) (Fin (?S ! i)) \<longrightarrow>
              ls ! i = (if include_lb ?L
                        then Some (Lbound (dimlimit_of (explicit_limits ?L ! 1)
                                             (explicit_limits ?L ! 0)))
                        else None)) \<and>
           (lim_le (last (explicit_limits ?L)) (Fin (?S ! i)) \<longrightarrow>
              ls ! i = (if include_ub ?L
                        then Some (Ubound (dimlimit_of (explicit_limits ?L ! 1)
                                             (last (explicit_limits ?L))))
                        else None)) \<and>
           (\<forall>k. Suc k < length (explicit_limits ?L) \<and>
                lim_le (explicit_limits ?L ! k) (Fin (?S ! i)) \<and>
                \<not> lim_le (explicit_limits ?L ! Suc k) (Fin (?S ! i)) \<longrightarrow>
              ls ! i = Some (Between (dimlimit_of (explicit_limits ?L ! 1)
                                        (explicit_limits ?L ! k))
                                     (dimlimit_of (explicit_limits ?L ! 1)
                                        (explicit_limits ?L ! Suc k))))"
    by blast
  have l0: "ls ! 0 = Some (Lbound (Fin 1, Minutes))"
    using rule [rule_format, of 0] flags by (simp add: ex dimlimit_of_def)
  have l1: "ls ! 1 = Some (Between (Fin 30, Minutes) (Fin 60, Minutes))"
    using rule [rule_format, of 1, THEN conjunct2, THEN conjunct2, rule_format, of 1]
    by (simp add: ex dimlimit_of_def)
  have l2: "ls ! 2 = Some (Ubound (Fin 60, Minutes))"
    using rule [rule_format, of 2] flags by (simp add: ex dimlimit_of_def)
  have "ls = [ls ! 0, ls ! 1, ls ! 2]"
    using len by (intro nth_equalityI) (auto simp: less_Suc_eq eval_nat_numeral)
  with l0 l1 l2 have "ls = [Some (Lbound (Fin 1, Minutes)),
          Some (Between (Fin 30, Minutes) (Fin 60, Minutes)),
          Some (Ubound (Fin 60, Minutes))]" by simp
  with ls show ?thesis by (simp add: ex)
qed

text \<open>
  Claim C9 (thresholds that are not strictly ascending, or fewer than two of them, fail
  with InvalidThreshold before any output).  As stated the claim does not hold: the
  class has no such error and does not check the order itself.  Descending limits are
  accepted, and so are repeated ones; labels are produced for them.
\<close>

theorem sst_bins_accepts_unordered_limits:
  "explicit_limits [Fin 3600, Fin 60, PosInf] = [Fin 3600, Fin 60] \<and>
   \<not> lim_le (Fin 3600) (Fin 60) \<and>
   sst_bins [Fin 3600, Fin 60, PosInf] [10] = Inr [Some (Ubound (Fin 1, Minutes))] \<and>
   sst_bins [Fin 60, Fin 60] [60, 5] = Inr [None, None]"
  by (simp add: bin_defs)

text \<open>
  Claim C9 as the code has it.  What is left of the limits after the infinite
  sentinels are removed decides:
  \<^item> fewer than two explicit limits: IndexError (from \<^verbatim>\<open>limits[0]\<close> or
    \<^verbatim>\<open>limits[1]\<close>), and no label column;
  \<^item> at least two explicit limits that are neither non-decreasing nor non-increasing:
    ValueError (from \<^verbatim>\<open>np.digitize\<close>), and no label column;
  \<^item> otherwise the method returns one label per sample.
\<close>

theorem sst_bins_threshold_errors:
  "(length (explicit_limits limits) < 2 \<longrightarrow> sst_bins limits sst = Inl IndexError) \<and>
   (2 \<le> length (explicit_limits limits) \<and> monotonicity (explicit_limits limits) = 0 \<longrightarrow>
      sst_bins limits sst = Inl ValueError) \<and>
   (2 \<le> length (explicit_limits limits) \<and> monotonicity (explicit_limits limits) \<noteq> 0 \<longrightarrow>
      (\<exists>ls. sst_bins limits sst = Inr ls \<and> length ls = length sst))"
proof (cases "limits = []")
  case True
  then show ?thesis by (simp add: sst_bins_Nil)
next
  case ne: False
  let ?ex = "explicit_limits limits"
  show ?thesis
  proof (intro conjI impI)
    assume "length ?ex < 2"
    then show "sst_bins limits sst = Inl IndexError"
      using ne by (simp add: sst_bins_nonempty to_dimlimits_short)
  next
    assume "2 \<le> length ?ex \<and> monotonicity ?ex = 0"
    then show "sst_bins limits sst = Inl ValueError"
      using ne by (simp add: sst_bins_nonempty to_dimlimits_ok digitize_fail)
  next
    assume a: "2 \<le> length ?ex \<and> monotonicity ?ex \<noteq> 0"
    then obtain idx where idx: "digitize sst ?ex = Inr idx"
      using digitize_ok by blast
    then have b: "\<forall>d \<in> set idx. d \<le> length ?ex" "length idx = length sst"
      using digitize_bound by blast+
    have "\<exists>ls. bin_loop (include_lb limits) (include_ub limits)
             (map (dimlimit_of (?ex ! 1)) ?ex) idx = Inr ls \<and> length ls = length idx"
      using a b by (intro bin_loop_total) auto
    then show "\<exists>ls. sst_bins limits sst = Inr ls \<and> length ls = length sst"
      using ne a idx b by (simp add: sst_bins_nonempty to_dimlimits_ok)
  qed
qed

theorem sst_bins_threshold_errors_witness:
  "(length (explicit_limits [NegInf, Fin 60, PosInf]) < 2 \<and>
      sst_bins [NegInf, Fin 60, PosInf] [10] = Inl IndexError) \<and>
   (2 \<le> length (explicit_limits [Fin 60, Fin 3600, Fin 100]) \<and>
      monotonicity (explicit_limits [Fin 60, Fin 3600, Fin 100]) = 0 \<and>
      sst_bins [Fin 60, Fin 3600, Fin 100] [10] = Inl ValueError) \<and>
   (2 \<le> length (explicit_limits [Fin 60, Fin 1800]) \<and>
      monotonicity (explicit_limits [Fin 60, Fin 1800]) \<noteq> 0 \<and>
      (\<exists>ls. sst_bins [Fin 60, Fin 1800] [10] = Inr ls \<and> length ls = length [10 :: real]))"
proof -
  have e1: "explicit_limits [NegInf, Fin 60, PosInf] = [Fin 60]"
    and e2: "explicit_limits [Fin 60, Fin 3600, Fin 100] = [Fin 60, Fin 3600, Fin 100]"
    and e3: "explicit_limits [Fin 60, Fin 1800] = [Fin 60, Fin 1800]"
    by (simp_all add: explicit_limits_def include_lb_def include_ub_def)
  have h1: "length (explicit_limits [NegInf, Fin 60, PosInf]) < 2"
    by (simp add: e1)
  have h2: "2 \<le> length (explicit_limits [Fin 60, Fin 3600, Fin 100]) \<and>
      monotonicity (explicit_limits [Fin 60, Fin 3600, Fin 100]) = 0"
    by (simp add: e2 monotonicity_def)
  have h3: "2 \<le> length (explicit_limits [Fin 60, Fin 1800]) \<and>
      monotonicity (explicit_limits [Fin 60, Fin 1800]) \<noteq> 0"
    by (simp add: e3 monotonicity_def)
  show ?thesis
    using h1 h2 h3
      sst_bins_threshold_errors [of "[NegInf, Fin 60, PosInf]" "[10]"]
      sst_bins_threshold_errors [of "[Fin 60, Fin 3600, Fin 100]" "[10]"]
      sst_bins_threshold_errors [of "[Fin 60, Fin 1800]" "[10]"]
    by blast
qed

section \<open>The phase correction\<close>

lemma mask_assign_all:
  "length h = length vs \<Longrightarrow> length xs = length vs \<Longrightarrow> mask_assign h (map (\<lambda>_. True) xs) vs = vs"
proof (induction vs arbitrary: h xs)
  case Nil then show ?case by simp
next
  case (Cons v vs)
  then obtain a h' where "h = a # h'" by (cases h) auto
  moreover from Cons obtain b xs' where "xs = b # xs'" by (cases xs) auto
  ultimately show ?case using Cons by simp
qed

lemma mask_select_all:
  assumes "length xs = length p"
  shows "mask_select p (map (\<lambda>_. True) xs) = p"
proof -
  from assms have "map fst (filter snd (zip p (map (\<lambda>_. True) xs))) = p"
  proof (induction p arbitrary: xs)
    case Nil then show ?case by simp
  next
    case (Cons a p)
    then obtain b xs' where "xs = b # xs'" by (cases xs) auto
    with Cons show ?case by simp
  qed
  then show ?thesis by (simp add: mask_select_def)
qed

lemma corrected_enthalpy_absent:
  assumes len: "length p = length T"
    and nin: "exp_phase \<notin> set (map2 (phase E) p T)"
  shows "corrected_enthalpy E exp_phase p T =
           Inr (map (\<lambda>x. props_PQ E x (quality exp_phase)) p)"
proof -
  let ?ph = "map2 (phase E) p T"
  let ?sat = "map (\<lambda>x. props_PQ E x (quality exp_phase)) p"
  from nin have m: "map (\<lambda>ph. ph \<noteq> exp_phase) ?ph = map (\<lambda>_. True) ?ph"
    by (intro map_cong) auto
  have sel: "mask_select p (map (\<lambda>_. True) ?ph) = p"
    using len by (intro mask_select_all) simp
  have asg: "mask_assign (map2 (props_PT E) p T) (map (\<lambda>_. True) ?ph) ?sat = ?sat"
    using len by (intro mask_assign_all) simp_all
  have "corrected_enthalpy E exp_phase p T =
          Inr (mask_assign (map2 (props_PT E) p T) (map (\<lambda>ph. ph \<noteq> exp_phase) ?ph)
                 (map (\<lambda>x. props_PQ E x (quality exp_phase))
                    (mask_select p (map (\<lambda>ph. ph \<noteq> exp_phase) ?ph))))"
    using len nin
    by (simp add: corrected_enthalpy_def single_phase_enthalpy_def zip_with_def Let_def)
  also have "\<dots> = Inr ?sat" by (simp only: m sel asg)
  finally show ?thesis .
qed

lemma corrected_enthalpy_present:
  assumes "length p = length T" and "exp_phase \<in> set (map2 (phase E) p T)"
  shows "corrected_enthalpy E exp_phase p T = Inr (map2 (props_PT E) p T)"
  using assms
  by (simp add: corrected_enthalpy_def single_phase_enthalpy_def zip_with_def Let_def)


lemma example_env_simps:
  "raw_data example_env = example_table" "timestamp example_env = [0, 10]"
  "name_converter example_env = example_nconv"
  "props_PT example_env = (\<lambda>p T. p + T)" "props_PQ example_env = (\<lambda>p q. 1000 + q)"
  "phase example_env = (\<lambda>p T. if T < 300 then ''twophase'' else ''gas'')"
  "psychro example_env = (\<lambda>P T RH. RH)"
  "to_units example_env = (\<lambda>u q. Inr q)" "add_q example_env = (\<lambda>a b. Inr a)"
  "float_of example_env = (\<lambda>t. None)"
  by (simp_all add: example_env_def)

text \<open>
  Claim C6 (every sample whose phase is not the expected one gets the saturated
  enthalpy, the others keep the single-phase value).  The code does not do this for an
  array in which some samples have the expected phase and others do not: the test
  \<^verbatim>\<open>if not exp_phase in phase\<close> is false as soon as one sample has the expected
  phase, and then no sample is replaced.  Here gas is expected, the first sample is
  two-phase and the second is gas: the first sample keeps its single-phase enthalpy
  201 and does not get the saturated value 1001.
\<close>

theorem phase_correction_skips_mixed_array:
  "phase example_env 1 200 \<noteq> ''gas'' \<and>
   props_PQ example_env 1 (quality ''gas'') = 1001 \<and>
   corrected_enthalpy example_env ''gas'' [1, 1] [200, 400] = Inr [201, 401]"
  by (simp add: corrected_enthalpy_def single_phase_enthalpy_def zip_with_def example_env_simps
      quality_def)

text \<open>
  What the code does instead: the replacement is decided for the whole array.  If the
  expected phase occurs at no sample, every sample gets the saturated enthalpy at its
  own pressure (quality 0 for an expected liquid, 1 for an expected gas); if it occurs
  at one sample at least, every sample keeps its single-phase enthalpy.
\<close>

lemma corrected_enthalpy_whole_array:
  "quality ''liq'' = 0 \<and> quality ''gas'' = 1 \<and>
   (length p = length T \<and> exp_phase \<notin> set (map2 (phase E) p T) \<longrightarrow>
      corrected_enthalpy E exp_phase p T =
        Inr (map (\<lambda>x. props_PQ E x (quality exp_phase)) p)) \<and>
   (length p = length T \<and> exp_phase \<in> set (map2 (phase E) p T) \<longrightarrow>
      corrected_enthalpy E exp_phase p T = Inr (map2 (props_PT E) p T))"
  by (simp add: quality_def corrected_enthalpy_absent corrected_enthalpy_present)



section \<open>Evaluating the store on the small data set\<close>

lemmas store_defs =
  get_def get0_def get_body_def requested_def build_quantities_def split_def is_space_def split_unit_def
  mode_step_def to_clean_step_def pel_step_def t_step_def as_is_step_def raw_values_def
  nconv_loc_def raw_column_def Q_nconv_def update_units_def store_def clear_def
  enthalpy_names_def example_env_simps example_table_def example_nconv_def new_datataker_def
  Qty_def Let_def

lemma upt_9: "[0..<9] = [0, 1, 2, 3, 4, 5, 6, 7, 8]"
  by (simp add: upt_rec)

lemma g0: "get0 example_env ''refdir'' False [] new_datataker =
   Inr ([Qty [Num 0, Num 1] None None None],
        \<lparr>quantities = [''refdir'' \<mapsto> Qty [Num 0, Num 1] None None None], groups = [],
         trace = [Derived ''refdir'']\<rparr>)"
  by (simp add: store_defs upt_9)



section \<open>The operating mode\<close>

lemma heating_mode_iff:
  "heating_mode ref_dir = (2 * count_nonzero ref_dir < length ref_dir)"
proof -
  have "(real (count_nonzero ref_dir) < real (length ref_dir) / 2) =
        (real (2 * count_nonzero ref_dir) < real (length ref_dir))"
    by (simp add: field_simps)
  also have "\<dots> = (2 * count_nonzero ref_dir < length ref_dir)"
    by (simp only: of_nat_less_iff)
  finally show ?thesis by (simp add: heating_mode_def)
qed

lemma unpack1_Inr: "(unpack1 vals = Inr a) = (vals = [a])"
  by (auto simp: unpack1_def split: list.splits)

lemma unpack2_Inr: "(unpack2 vals = Inr (a, b)) = (vals = [a, b])"
  by (auto simp: unpack2_def split: list.splits)

text \<open>
  Claim C5 as the code has it: the mode is heating if and only if fewer than half of
  the samples of the direction flag are non-zero (cooling); when exactly half of them
  are, the mode is cooling.  The flag is the quantity \<open>refdir\<close>, fetched through \<open>get\<close>
  with the filter of the call.
\<close>

theorem mode_step_strict_majority:
  assumes "mode_step g kwargs True s = Inr (heating, s')"
  shows "\<exists>ref_dir. g ''refdir'' False kwargs s = Inr ([ref_dir], s') \<and>
           (heating = (2 * count_nonzero (magnitude ref_dir) < length (magnitude ref_dir))) \<and>
           (2 * count_nonzero (magnitude ref_dir) = length (magnitude ref_dir) \<longrightarrow> \<not> heating)"
proof -
  from assms obtain vals ref_dir where g: "g ''refdir'' False kwargs s = Inr (vals, s')"
    and u: "unpack1 vals = Inr ref_dir" and h: "heating = heating_mode (magnitude ref_dir)"
    by (auto simp: mode_step_def ebind_eq_Inr)
  from g u have "g ''refdir'' False kwargs s = Inr ([ref_dir], s')"
    by (simp add: unpack1_Inr)
  moreover have "heating = (2 * count_nonzero (magnitude ref_dir) < length (magnitude ref_dir))"
    using h by (simp add: heating_mode_iff)
  ultimately show ?thesis by auto
qed

text \<open>
  Claim C5 (heating if and only if fewer than half of the samples are flagged cooling;
  in particular, exactly half flagged cooling is treated as heating).  The second part
  does not hold: on the small data set one of the two samples of the direction flag is
  non-zero, and the mode is not heating.
\<close>

theorem mode_step_tie_is_cooling:
  "2 * count_nonzero [Num 0, Num 1] = length [Num 0, Num 1] \<and>
   mode_step (get0 example_env) [] True new_datataker =
     Inr (False,
          \<lparr>quantities = [''refdir'' \<mapsto> Qty [Num 0, Num 1] None None None], groups = [],
           trace = [Derived ''refdir'']\<rparr>)"
  by (simp add: mode_step_def g0 heating_mode_def count_nonzero_def Qty_def unpack1_def)

theorem mode_step_strict_majority_witness:
  "mode_step (\<lambda>v u k s. Inr ([Qty [Num 0, Num 0, Num 1] None None None], s)) [] True
      new_datataker = Inr (True, new_datataker) \<and>
   (\<exists>ref_dir. (\<lambda>v u k s. Inr ([Qty [Num 0, Num 0, Num 1] None None None], s))
                 ''refdir'' False [] new_datataker = Inr ([ref_dir], new_datataker) \<and>
      (True = (2 * count_nonzero (magnitude ref_dir) < length (magnitude ref_dir))) \<and>
      (2 * count_nonzero (magnitude ref_dir) = length (magnitude ref_dir) \<longrightarrow> \<not> True))"
proof -
  have h: "mode_step (\<lambda>v u k s. Inr ([Qty [Num 0, Num 0, Num 1] None None None], s)) [] True
      new_datataker = Inr (True, new_datataker)"
    by (simp add: mode_step_def heating_mode_def count_nonzero_def Qty_def unpack1_def)
  show ?thesis using h mode_step_strict_majority [OF h] by simp
qed

section \<open>The cleaned quantities\<close>





lemma quantities_store [simp]:
  "quantities (store name q s) = (quantities s)(name \<mapsto> q)"
  by (simp add: store_def)



section \<open>What the store keeps and what it derives\<close>

lemma trace_store [simp]: "trace (store name q s) = trace s @ [Derived name]"
  by (simp add: store_def)

lemma groups_store [simp]: "groups (store name q s) = groups s"
  by (simp add: store_def)

lemma logged_refl: "logged {} s s"
  by (simp add: logged_def)

lemma logged_trans:
  assumes "logged N1 s s1" "logged N2 s1 s2"
  shows "logged (N1 \<union> N2) s s2"
proof -
  from assms(1) obtain new1 where t1: "trace s1 = trace s @ new1"
    and a1: "\<forall>n q. quantities s1 n = Some q \<longrightarrow> quantities s n = Some q \<or> Derived n \<in> set new1"
    and b1: "\<forall>n\<in>N1. Derived n \<in> set new1"
    by (auto simp: logged_def)
  from assms(2) obtain new2 where t2: "trace s2 = trace s1 @ new2"
    and a2: "\<forall>n q. quantities s2 n = Some q \<longrightarrow> quantities s1 n = Some q \<or> Derived n \<in> set new2"
    and b2: "\<forall>n\<in>N2. Derived n \<in> set new2"
    by (auto simp: logged_def)
  have "trace s2 = trace s @ (new1 @ new2)" using t1 t2 by simp
  moreover have "\<forall>n q. quantities s2 n = Some q \<longrightarrow>
      quantities s n = Some q \<or> Derived n \<in> set (new1 @ new2)"
    using a1 a2 by auto
  moreover have "\<forall>n\<in>N1 \<union> N2. Derived n \<in> set (new1 @ new2)"
    using b1 b2 by auto
  ultimately show ?thesis unfolding logged_def by blast
qed

lemma logged_mono: "logged N s s' \<Longrightarrow> N' \<subseteq> N \<Longrightarrow> logged N' s s'"
  unfolding logged_def by blast

lemma logged_trans0: "logged {} s s1 \<Longrightarrow> logged N s1 s2 \<Longrightarrow> logged N s s2"
  using logged_trans [of "{}" s s1 N s2] by simp

lemma logged_trans1: "logged N s s1 \<Longrightarrow> logged {} s1 s2 \<Longrightarrow> logged N s s2"
  using logged_trans [of N s s1 "{}" s2] by simp

lemma logged_store: "logged {n} s (store n q s)"
  by (auto simp: logged_def)

lemma logged_clear: "logged {} s (clear s)"
  by (simp add: logged_def clear_def)

lemma preserving_refl: "preserving D kw s s"
  by (simp add: preserving_def)

lemma preserving_trans:
  assumes "preserving D kw s s1" "preserving D kw s1 s2"
  shows "preserving D kw s s2"
  unfolding preserving_def
proof (intro impI)
  assume pre: "map_of (groups s) = map_of kw \<and> D \<subseteq> dom (quantities s)"
  with assms(1) obtain new1 where g1: "map_of (groups s1) = map_of kw" "D \<subseteq> dom (quantities s1)"
    and t1: "trace s1 = trace s @ new1" and c1: "Cleared \<notin> set new1"
    and d1: "\<forall>n. Derived n \<in> set new1 \<longrightarrow> n \<notin> D"
    and k1: "\<forall>n\<in>D. quantities s1 n = quantities s n"
    by (auto simp: preserving_def)
  from assms(2) g1 obtain new2 where g2: "map_of (groups s2) = map_of kw" "D \<subseteq> dom (quantities s2)"
    and t2: "trace s2 = trace s1 @ new2" and c2: "Cleared \<notin> set new2"
    and d2: "\<forall>n. Derived n \<in> set new2 \<longrightarrow> n \<notin> D"
    and k2: "\<forall>n\<in>D. quantities s2 n = quantities s1 n"
    by (auto simp: preserving_def)
  have "trace s2 = trace s @ (new1 @ new2)" using t1 t2 by simp
  moreover have "Cleared \<notin> set (new1 @ new2)" using c1 c2 by simp
  moreover have "\<forall>n. Derived n \<in> set (new1 @ new2) \<longrightarrow> n \<notin> D" using d1 d2 by auto
  moreover have "\<forall>n\<in>D. quantities s2 n = quantities s n" using k1 k2 by simp
  ultimately show "map_of (groups s2) = map_of kw \<and> D \<subseteq> dom (quantities s2) \<and>
        (\<exists>new. trace s2 = trace s @ new \<and> Cleared \<notin> set new \<and>
           (\<forall>n. Derived n \<in> set new \<longrightarrow> n \<notin> D) \<and>
           (\<forall>n\<in>D. quantities s2 n = quantities s n))"
    using g2 by blast
qed

lemma preserving_store: "n \<notin> D \<Longrightarrow> preserving D kw s (store n q s)"
  by (auto simp: preserving_def)

lemma preserving_weaken:
  assumes "preserving (dom (quantities s)) kw s s'"
  shows "preserving D kw s s'"
  unfolding preserving_def
proof (intro impI)
  assume pre: "map_of (groups s) = map_of kw \<and> D \<subseteq> dom (quantities s)"
  with assms obtain new where g: "map_of (groups s') = map_of kw"
    and sub: "dom (quantities s) \<subseteq> dom (quantities s')"
    and t: "trace s' = trace s @ new" and c: "Cleared \<notin> set new"
    and d: "\<forall>n. Derived n \<in> set new \<longrightarrow> n \<notin> dom (quantities s)"
    and k: "\<forall>n\<in>dom (quantities s). quantities s' n = quantities s n"
    by (auto simp: preserving_def)
  have "\<forall>n. Derived n \<in> set new \<longrightarrow> n \<notin> D" using d pre by blast
  moreover have "\<forall>n\<in>D. quantities s' n = quantities s n" using k pre by blast
  moreover have "D \<subseteq> dom (quantities s')" using sub pre by blast
  ultimately show "map_of (groups s') = map_of kw \<and> D \<subseteq> dom (quantities s') \<and>
        (\<exists>new. trace s' = trace s @ new \<and> Cleared \<notin> set new \<and>
           (\<forall>n. Derived n \<in> set new \<longrightarrow> n \<notin> D) \<and>
           (\<forall>n\<in>D. quantities s' n = quantities s n))"
    using g t c by blast
qed

lemma getter_logged: "getter_ok g \<Longrightarrow> g v u kw s = Inr (vals, s') \<Longrightarrow> logged {} s s'"
  unfolding getter_ok_def by blast

lemma getter_preserving:
  "getter_ok g \<Longrightarrow> g v False kw s = Inr (vals, s') \<Longrightarrow> preserving D kw s s'"
  unfolding getter_ok_def by (blast intro: preserving_weaken)

lemma foldM_logged:
  assumes "\<And>x s s'. x \<in> set xs \<Longrightarrow> f x s = Inr s' \<Longrightarrow> logged {x} s s'"
    and "foldM f xs s = Inr s'"
  shows "logged (set xs) s s'"
  using assms
proof (induction xs arbitrary: s)
  case Nil then show ?case by (simp add: logged_refl)
next
  case (Cons x xs)
  from Cons.prems(2) obtain s1 where s1: "f x s = Inr s1" and r: "foldM f xs s1 = Inr s'"
    by (auto simp: ebind_eq_Inr)
  have "logged {x} s s1" by (rule Cons.prems(1) [OF _ s1]) simp
  moreover have "logged (set xs) s1 s'"
  proof (rule Cons.IH [OF _ r])
    fix y t t' assume "y \<in> set xs" "f y t = Inr t'"
    then show "logged {y} t t'" using Cons.prems(1) [of y t t'] by simp
  qed
  ultimately have "logged ({x} \<union> set xs) s s'" by (rule logged_trans)
  then show ?case by simp
qed

lemma foldM_preserving:
  assumes "\<And>x s s'. x \<in> set xs \<Longrightarrow> f x s = Inr s' \<Longrightarrow> preserving D kw s s'"
    and "foldM f xs s = Inr s'"
  shows "preserving D kw s s'"
  using assms
proof (induction xs arbitrary: s)
  case Nil then show ?case by (simp add: preserving_refl)
next
  case (Cons x xs)
  from Cons.prems(2) obtain s1 where s1: "f x s = Inr s1" and r: "foldM f xs s1 = Inr s'"
    by (auto simp: ebind_eq_Inr)
  have "preserving D kw s s1" by (rule Cons.prems(1) [OF _ s1]) simp
  moreover have "preserving D kw s1 s'"
  proof (rule Cons.IH [OF _ r])
    fix y t t' assume "y \<in> set xs" "f y t = Inr t'"
    then show "preserving D kw t t'" using Cons.prems(1) [of y t t'] by simp
  qed
  ultimately show ?case by (rule preserving_trans)
qed


text \<open>The shape of a successful run of each step.\<close>

lemma ebindE:
  assumes "ebind m f = Inr y"
  obtains x where "m = Inr x" "f x = Inr y"
  using assms by (auto simp: ebind_eq_Inr)

lemma mode_step_shape:
  assumes "mode_step g kwargs needed s = Inr (heating, s')"
  shows "s' = s \<or> (\<exists>vals. g ''refdir'' False kwargs s = Inr (vals, s'))"
  using assms by (cases needed) (auto simp: mode_step_def ebind_eq_Inr)

lemma hum_ratio_step_shape:
  assumes "hum_ratio_step g E kwargs w s = Inr s'"
  shows "\<exists>v1 vals1 s1 v2 vals2 s2 q.
           g v1 False kwargs s = Inr (vals1, s1) \<and> g v2 False kwargs s1 = Inr (vals2, s2) \<and>
           s' = store w q s2"
proof -
  from assms obtain vals1 s1 vals2 s2 q
    where "g (''T'' @ strip (CHR ''w'') w) False kwargs s = Inr (vals1, s1)"
      "g (''RH'' @ strip (CHR ''w'') w) False kwargs s1 = Inr (vals2, s2)"
      "s' = store w q s2"
    by (auto simp: hum_ratio_step_def ebind_eq_Inr)
  then show ?thesis by blast
qed

lemma dependent_step_shape:
  assumes "dependent_step g E kwargs heating quantity s = Inr s'"
  shows "\<exists>v vals s1 q. g v False kwargs s = Inr (vals, s1) \<and> s' = store quantity q s1"
  using assms by (auto simp: dependent_step_def ebind_eq_Inr)

lemma pel_step_shape:
  assumes "pel_step g E kwargs True s = Inr s'"
  shows "\<exists>v vals s1 q. g v False kwargs s = Inr (vals, s1) \<and> s' = store ''Pel'' q s1"
  using assms by (auto simp: pel_step_def ebind_eq_Inr)

lemma enthalpy_step_shape:
  assumes "enthalpy_step g E kwargs heating enthalpy s = Inr s'"
  shows "\<exists>v vals s1 q. g v False kwargs s = Inr (vals, s1) \<and> s' = store enthalpy q s1"
  using assms by (auto simp: enthalpy_step_def ebind_eq_Inr)

lemma as_is_step_shape:
  assumes "as_is_step E raw quantity s = Inr s'"
  shows "\<exists>q. s' = store quantity q s"
  using assms by (auto simp: as_is_step_def ebind_eq_Inr)

lemma t_step_shape:
  assumes "t_step E raw True s = Inr s'"
  shows "\<exists>q. s' = store ''t'' q s"
  using assms by (auto simp: t_step_def ebind_eq_Inr)


lemma to_clean_step_logged:
  assumes "to_clean_step E raw to_clean s = Inr s'" and "set to_clean \<subseteq> {''f'', ''flowrt_r''}"
  shows "logged (set to_clean) s s'"
proof (cases "to_clean = []")
  case True
  with assms show ?thesis by (simp add: to_clean_step_def logged_refl)
next
  case False
  with assms(1) obtain f s1 where
    a: "(if ''f'' \<in> set to_clean
         then ebind (Q_nconv E ''f'' (map Num f)) (\<lambda>q. Inr (store ''f'' q s))
         else Inr s) = Inr s1"
    and b: "(if ''flowrt_r'' \<in> set to_clean then
          ebind (raw_values E raw ''flowrt_r'') (\<lambda>raw_flow.
          ebind (clean_flowrt_r f raw_flow) (\<lambda>flowrt_r.
          ebind (Q_nconv E ''flowrt_r'' flowrt_r) (\<lambda>q.
          Inr (store ''flowrt_r'' q s1))))
        else Inr s1) = Inr s'"
    by (auto simp: to_clean_step_def ebind_eq_Inr)
  have l1: "logged (set to_clean \<inter> {''f''}) s s1"
  proof (cases "''f'' \<in> set to_clean")
    case True
    with a obtain q where "s1 = store ''f'' q s" by (auto simp: ebind_eq_Inr)
    then have "logged {''f''} s s1" by (simp add: logged_store)
    with True show ?thesis by (auto elim: logged_mono)
  next
    case False
    with a have "s1 = s" by simp
    moreover from False have "set to_clean \<inter> {''f''} = {}" by simp
    ultimately show ?thesis by (simp add: logged_refl)
  qed
  have l2: "logged (set to_clean \<inter> {''flowrt_r''}) s1 s'"
  proof (cases "''flowrt_r'' \<in> set to_clean")
    case True
    with b obtain q where "s' = store ''flowrt_r'' q s1" by (auto simp: ebind_eq_Inr)
    then have "logged {''flowrt_r''} s1 s'" by (simp add: logged_store)
    with True show ?thesis by (auto elim: logged_mono)
  next
    case False
    with b have "s' = s1" by simp
    moreover from False have "set to_clean \<inter> {''flowrt_r''} = {}" by simp
    ultimately show ?thesis by (simp add: logged_refl)
  qed
  from logged_trans [OF l1 l2]
  have "logged (set to_clean \<inter> {''f''} \<union> set to_clean \<inter> {''flowrt_r''}) s s'" .
  moreover have "set to_clean \<subseteq> set to_clean \<inter> {''f''} \<union> set to_clean \<inter> {''flowrt_r''}"
    using assms(2) by auto
  ultimately show ?thesis by (rule logged_mono)
qed

lemma to_clean_step_preserving:
  assumes "to_clean_step E raw to_clean s = Inr s'" and "set to_clean \<inter> D = {}"
  shows "preserving D kw s s'"
proof (cases "to_clean = []")
  case True
  with assms show ?thesis by (simp add: to_clean_step_def preserving_refl)
next
  case False
  with assms(1) obtain f s1 where
    a: "(if ''f'' \<in> set to_clean
         then ebind (Q_nconv E ''f'' (map Num f)) (\<lambda>q. Inr (store ''f'' q s))
         else Inr s) = Inr s1"
    and b: "(if ''flowrt_r'' \<in> set to_clean then
          ebind (raw_values E raw ''flowrt_r'') (\<lambda>raw_flow.
          ebind (clean_flowrt_r f raw_flow) (\<lambda>flowrt_r.
          ebind (Q_nconv E ''flowrt_r'' flowrt_r) (\<lambda>q.
          Inr (store ''flowrt_r'' q s1))))
        else Inr s1) = Inr s'"
    by (auto simp: to_clean_step_def ebind_eq_Inr)
  have p1: "preserving D kw s s1"
  proof (cases "''f'' \<in> set to_clean")
    case True
    with a obtain q where "s1 = store ''f'' q s" by (auto simp: ebind_eq_Inr)
    moreover from True assms(2) have "''f'' \<notin> D" by auto
    ultimately show ?thesis by (simp add: preserving_store)
  next
    case False
    with a show ?thesis by (simp add: preserving_refl)
  qed
  have p2: "preserving D kw s1 s'"
  proof (cases "''flowrt_r'' \<in> set to_clean")
    case True
    with b obtain q where "s' = store ''flowrt_r'' q s1" by (auto simp: ebind_eq_Inr)
    moreover from True assms(2) have "''flowrt_r'' \<notin> D" by auto
    ultimately show ?thesis by (simp add: preserving_store)
  next
    case False
    with b show ?thesis by (simp add: preserving_refl)
  qed
  from p1 p2 show ?thesis by (rule preserving_trans)
qed

text \<open>Each step, for a \<open>get\<close> that keeps the two relations.\<close>

lemma get_then_store_logged:
  assumes "getter_ok g" "g v False kw s = Inr (vals, s1)" "s' = store n q s1"
  shows "logged {n} s s'"
  using assms logged_trans0 [OF getter_logged logged_store] by blast

lemma get_then_store_preserving:
  assumes "getter_ok g" "g v False kw s = Inr (vals, s1)" "s' = store n q s1" "n \<notin> D"
  shows "preserving D kw s s'"
  using assms preserving_trans [OF getter_preserving preserving_store] by blast

lemma mode_step_ok:
  assumes "getter_ok g" "mode_step g kw needed s = Inr (heating, s')"
  shows "logged {} s s'" "preserving D kw s s'"
  using mode_step_shape [OF assms(2)] assms(1)
  by (auto simp: logged_refl preserving_refl intro: getter_logged getter_preserving)

lemma hum_ratio_step_ok:
  assumes ok: "getter_ok g" and st: "hum_ratio_step g E kw w s = Inr s'"
  shows "logged {w} s s'" "w \<notin> D \<Longrightarrow> preserving D kw s s'"
proof -
  from hum_ratio_step_shape [OF st] obtain v1 vals1 s1 v2 vals2 s2 q
    where a: "g v1 False kw s = Inr (vals1, s1)" and b: "g v2 False kw s1 = Inr (vals2, s2)"
      and c: "s' = store w q s2" by blast
  have "logged {} s s1" using ok a by (rule getter_logged)
  moreover have "logged {w} s1 s'" using ok b c by (rule get_then_store_logged)
  ultimately show "logged {w} s s'" by (rule logged_trans0)
  assume "w \<notin> D"
  with ok b c have "preserving D kw s1 s'" by (rule get_then_store_preserving)
  moreover have "preserving D kw s s1" using ok a by (rule getter_preserving)
  ultimately show "preserving D kw s s'" by (rule preserving_trans [rotated])
qed

lemma dependent_step_ok:
  assumes ok: "getter_ok g" and st: "dependent_step g E kw heating n s = Inr s'"
  shows "logged {n} s s'" "n \<notin> D \<Longrightarrow> preserving D kw s s'"
proof -
  from dependent_step_shape [OF st] obtain v vals s1 q
    where a: "g v False kw s = Inr (vals, s1)" and c: "s' = store n q s1" by blast
  show "logged {n} s s'" using ok a c by (rule get_then_store_logged)
  assume "n \<notin> D"
  with ok a c show "preserving D kw s s'" by (rule get_then_store_preserving)
qed

lemma enthalpy_step_ok:
  assumes ok: "getter_ok g" and st: "enthalpy_step g E kw heating n s = Inr s'"
  shows "logged {n} s s'" "n \<notin> D \<Longrightarrow> preserving D kw s s'"
proof -
  from enthalpy_step_shape [OF st] obtain v vals s1 q
    where a: "g v False kw s = Inr (vals, s1)" and c: "s' = store n q s1" by blast
  show "logged {n} s s'" using ok a c by (rule get_then_store_logged)
  assume "n \<notin> D"
  with ok a c show "preserving D kw s s'" by (rule get_then_store_preserving)
qed

lemma as_is_step_ok:
  assumes st: "as_is_step E raw n s = Inr s'"
  shows "logged {n} s s'" "n \<notin> D \<Longrightarrow> preserving D kw s s'"
  using as_is_step_shape [OF st] by (auto simp: logged_store preserving_store)

lemma pel_step_ok:
  assumes ok: "getter_ok g" and st: "pel_step g E kw needed s = Inr s'"
  shows "logged (if needed then {''Pel''} else {}) s s'"
    "(needed \<longrightarrow> ''Pel'' \<notin> D) \<Longrightarrow> preserving D kw s s'"
proof -
  show "logged (if needed then {''Pel''} else {}) s s'"
  proof (cases needed)
    case True
    with st pel_step_shape [of g E kw s s'] obtain v vals s1 q
      where "g v False kw s = Inr (vals, s1)" "s' = store ''Pel'' q s1" by auto
    with ok have "logged {''Pel''} s s'" by (rule get_then_store_logged)
    with True show ?thesis by simp
  next
    case False
    with st show ?thesis by (simp add: pel_step_def logged_refl)
  qed
  assume d: "needed \<longrightarrow> ''Pel'' \<notin> D"
  show "preserving D kw s s'"
  proof (cases needed)
    case True
    with st pel_step_shape [of g E kw s s'] obtain v vals s1 q
      where "g v False kw s = Inr (vals, s1)" "s' = store ''Pel'' q s1" by auto
    moreover from True d have "''Pel'' \<notin> D" by simp
    ultimately show ?thesis using ok by (intro get_then_store_preserving)
  next
    case False
    with st show ?thesis by (simp add: pel_step_def preserving_refl)
  qed
qed

lemma t_step_ok:
  assumes st: "t_step E raw needed s = Inr s'"
  shows "logged (if needed then {''t''} else {}) s s'"
    "(needed \<longrightarrow> ''t'' \<notin> D) \<Longrightarrow> preserving D kw s s'"
proof -
  show "logged (if needed then {''t''} else {}) s s'"
  proof (cases needed)
    case True
    with st t_step_shape [of E raw s s'] show ?thesis by (auto simp: logged_store)
  next
    case False
    with st show ?thesis by (simp add: t_step_def logged_refl)
  qed
  assume d: "needed \<longrightarrow> ''t'' \<notin> D"
  show "preserving D kw s s'"
  proof (cases needed)
    case True
    with st t_step_shape [of E raw s s'] d show ?thesis by (auto simp: preserving_store)
  next
    case False
    with st show ?thesis by (simp add: t_step_def preserving_refl)
  qed
qed


text \<open>The whole of \<open>_build_quantities\<close>.\<close>

lemma build_quantities_ok:
  assumes ok: "getter_ok g"
  shows "builder_ok (build_quantities g E)"
  unfolding builder_ok_def
proof (intro allI impI)
  fix names kw s s'
  assume b: "build_quantities g E names kw s = Inr s'"
  define hum where "hum = filter (\<lambda>q. q \<in> set [''ws'', ''wr'']) names"
  define tc where "tc = filter (\<lambda>q. q \<in> set [''f'', ''flowrt_r'']) names"
  define dep where
    "dep = filter (\<lambda>q. q \<in> set [''Qcond'', ''Qev'', ''Pcomp'', ''Pel'', ''Qloss_ev'', ''t'']) names"
  define ent where "ent = filter (\<lambda>q. q \<in> set enthalpy_names) names"
  define asis where
    "asis = filter (\<lambda>q. q \<notin> set hum \<and> q \<notin> set tc \<and> q \<notin> set dep \<and> q \<notin> set ent) names"
  define dh where "dh = filter (\<lambda>q. q \<notin> set [''Pel'', ''t'']) dep"
  have b': "ebind (filter_kwargs (raw_data E) kw) (\<lambda>raw.
      ebind (mode_step g kw (ent \<noteq> [] \<or> dh \<noteq> []) s) (\<lambda>(heating, s1).
      ebind (foldM (hum_ratio_step g E kw) hum s1) (\<lambda>s2.
      ebind (to_clean_step E raw tc s2) (\<lambda>s3.
      ebind (foldM (dependent_step g E kw heating) dh s3) (\<lambda>s4.
      ebind (pel_step g E kw (''Pel'' \<in> set dep) s4) (\<lambda>s5.
      ebind (t_step E raw (''t'' \<in> set dep) s5) (\<lambda>s6.
      ebind (foldM (as_is_step E raw) asis s6) (\<lambda>s7.
      foldM (enthalpy_step g E kw heating) ent s7)))))))) = Inr s'"
    using b unfolding build_quantities_def Let_def hum_def tc_def dep_def ent_def asis_def dh_def .
  then obtain raw heating s1 s2 s3 s4 s5 s6 s7 where
    e0: "mode_step g kw (ent \<noteq> [] \<or> dh \<noteq> []) s = Inr (heating, s1)"
    and e1: "foldM (hum_ratio_step g E kw) hum s1 = Inr s2"
    and e2: "to_clean_step E raw tc s2 = Inr s3"
    and e3: "foldM (dependent_step g E kw heating) dh s3 = Inr s4"
    and e4: "pel_step g E kw (''Pel'' \<in> set dep) s4 = Inr s5"
    and e5: "t_step E raw (''t'' \<in> set dep) s5 = Inr s6"
    and e6: "foldM (as_is_step E raw) asis s6 = Inr s7"
    and e7: "foldM (enthalpy_step g E kw heating) ent s7 = Inr s'"
    by (auto simp: ebind_eq_Inr)
  let ?P = "if ''Pel'' \<in> set dep then {''Pel''} else {}"
  let ?T = "if ''t'' \<in> set dep then {''t''} else {}"
  have l0: "logged {} s s1" using ok e0 by (rule mode_step_ok)
  have l1: "logged (set hum) s1 s2"
    using e1 by (rule foldM_logged [rotated]) (rule hum_ratio_step_ok [OF ok])
  have l2: "logged (set tc) s2 s3"
    using e2 by (rule to_clean_step_logged) (auto simp: tc_def)
  have l3: "logged (set dh) s3 s4"
    using e3 by (rule foldM_logged [rotated]) (rule dependent_step_ok [OF ok])
  have l4: "logged ?P s4 s5" using ok e4 by (rule pel_step_ok)
  have l5: "logged ?T s5 s6" using e5 by (rule t_step_ok)
  have l6: "logged (set asis) s6 s7"
    using e6 by (rule foldM_logged [rotated]) (rule as_is_step_ok)
  have l7: "logged (set ent) s7 s'"
    using e7 by (rule foldM_logged [rotated]) (rule enthalpy_step_ok [OF ok])
  note a1 = logged_trans [OF l0 l1]
  note a2 = logged_trans [OF a1 l2]
  note a3 = logged_trans [OF a2 l3]
  note a4 = logged_trans [OF a3 l4]
  note a5 = logged_trans [OF a4 l5]
  note a6 = logged_trans [OF a5 l6]
  have "logged ({} \<union> set hum \<union> set tc \<union> set dh \<union> ?P \<union> ?T \<union> set asis \<union> set ent) s s'"
    by (rule logged_trans [OF a6 l7])
  moreover have "set names \<subseteq> {} \<union> set hum \<union> set tc \<union> set dh \<union> ?P \<union> ?T \<union> set asis \<union> set ent"
  proof
    fix n assume n: "n \<in> set names"
    show "n \<in> {} \<union> set hum \<union> set tc \<union> set dh \<union> ?P \<union> ?T \<union> set asis \<union> set ent"
    proof (cases "n \<in> set hum \<or> n \<in> set tc \<or> n \<in> set ent")
      case True then show ?thesis by auto
    next
      case other: False
      show ?thesis
      proof (cases "n \<in> set dep")
        case True
        then have "n \<in> set dh \<or> n = ''Pel'' \<or> n = ''t''" by (auto simp: dh_def)
        with True show ?thesis by auto
      next
        case False
        with other n have "n \<in> set asis" by (simp add: asis_def)
        then show ?thesis by simp
      qed
    qed
  qed
  ultimately have lg: "logged (set names) s s'" by (rule logged_mono)
  have pr: "\<forall>D. set names \<inter> D = {} \<longrightarrow> preserving D kw s s'"
  proof (intro allI impI)
    fix D assume dj: "set names \<inter> D = {}"
    have sub: "set hum \<subseteq> set names" "set tc \<subseteq> set names" "set dep \<subseteq> set names"
      "set ent \<subseteq> set names" "set asis \<subseteq> set names" "set dh \<subseteq> set dep"
      by (auto simp: hum_def tc_def dep_def ent_def asis_def dh_def)
    have p0: "preserving D kw s s1" using ok e0 by (rule mode_step_ok)
    have p1: "preserving D kw s1 s2"
      using e1
    proof (rule foldM_preserving [rotated])
      fix x t t' assume "x \<in> set hum" "hum_ratio_step g E kw x t = Inr t'"
      moreover then have "x \<notin> D" using sub dj by auto
      ultimately show "preserving D kw t t'" using hum_ratio_step_ok(2) [OF ok] by blast
    qed
    have p2: "preserving D kw s2 s3"
      using e2 by (rule to_clean_step_preserving) (use sub dj in auto)
    have p3: "preserving D kw s3 s4"
      using e3
    proof (rule foldM_preserving [rotated])
      fix x t t' assume "x \<in> set dh" "dependent_step g E kw heating x t = Inr t'"
      moreover then have "x \<notin> D" using sub dj by auto
      ultimately show "preserving D kw t t'" using dependent_step_ok(2) [OF ok] by blast
    qed
    have p4: "preserving D kw s4 s5"
      using ok e4 by (rule pel_step_ok) (use sub dj in auto)
    have p5: "preserving D kw s5 s6"
      using e5 by (rule t_step_ok) (use sub dj in auto)
    have p6: "preserving D kw s6 s7"
      using e6
    proof (rule foldM_preserving [rotated])
      fix x t t' assume "x \<in> set asis" "as_is_step E raw x t = Inr t'"
      moreover then have "x \<notin> D" using sub dj by auto
      ultimately show "preserving D kw t t'" using as_is_step_ok(2) by blast
    qed
    have p7: "preserving D kw s7 s'"
      using e7
    proof (rule foldM_preserving [rotated])
      fix x t t' assume "x \<in> set ent" "enthalpy_step g E kw heating x t = Inr t'"
      moreover then have "x \<notin> D" using sub dj by auto
      ultimately show "preserving D kw t t'" using enthalpy_step_ok(2) [OF ok] by blast
    qed
    note q1 = preserving_trans [OF p0 p1]
    note q2 = preserving_trans [OF q1 p2]
    note q3 = preserving_trans [OF q2 p3]
    note q4 = preserving_trans [OF q3 p4]
    note q5 = preserving_trans [OF q4 p5]
    note q6 = preserving_trans [OF q5 p6]
    show "preserving D kw s s'" by (rule preserving_trans [OF q6 p7])
  qed
  from lg pr show "logged (set names) s s' \<and> (\<forall>D. set names \<inter> D = {} \<longrightarrow> preserving D kw s s')"
    by simp
qed


text \<open>The method \<open>get\<close>, for a \<open>_build_quantities\<close> that keeps the two relations.\<close>

lemma logged_groups: "logged N s s1 \<Longrightarrow> logged N s (s1\<lparr>groups := kw\<rparr>)"
  by (simp add: logged_def)

lemma preserving_groups:
  assumes "preserving D kw s s1"
  shows "preserving D kw s (s1\<lparr>groups := kw\<rparr>)"
  using assms by (simp add: preserving_def)

lemma get_body_shape:
  assumes "get_body b E v u kw s = Inr (vals, s')"
  obtains s1 where
    "(if u \<or> map_of (groups s) \<noteq> map_of kw
      then b (remdups (requested v)) kw (clear s)
      else b (filter (\<lambda>q. quantities s q = None) (remdups (requested v))) kw s) = Inr s1"
    "s' = s1\<lparr>groups := kw\<rparr>"
    "requested v \<noteq> []"
    "mapM (update_units E (spec_units (split v) Map.empty) s') (requested v) = Inr vals"
proof -
  from assms obtain s1 where
    a: "(if u \<or> map_of (groups s) \<noteq> map_of kw
      then b (remdups (requested v)) kw (clear s)
      else b (filter (\<lambda>q. quantities s q = None) (remdups (requested v))) kw s) = Inr s1"
    and c: "(if requested v = [] then Inl IndexError
         else mapM (update_units E (spec_units (split v) Map.empty) (s1\<lparr>groups := kw\<rparr>))
                (requested v)) = Inr vals"
    and d: "s' = s1\<lparr>groups := kw\<rparr>"
    unfolding get_body_def Let_def by (auto simp: ebind_eq_Inr)
  from c have "requested v \<noteq> []" by (auto split: if_splits)
  moreover with c d
  have "mapM (update_units E (spec_units (split v) Map.empty) s') (requested v) = Inr vals"
    by simp
  ultimately show ?thesis using a d that by blast
qed

lemma get_body_ok:
  assumes ok: "builder_ok b"
  shows "getter_ok (get_body b E)"
  unfolding getter_ok_def
proof (intro allI impI)
  fix v u kw s vals s'
  assume g: "get_body b E v u kw s = Inr (vals, s')"
  from g obtain s1 where
    a: "(if u \<or> map_of (groups s) \<noteq> map_of kw
      then b (remdups (requested v)) kw (clear s)
      else b (filter (\<lambda>q. quantities s q = None) (remdups (requested v))) kw s) = Inr s1"
    and d: "s' = s1\<lparr>groups := kw\<rparr>"
    by (rule get_body_shape)
  have lg: "logged {} s s'"
  proof (cases "u \<or> map_of (groups s) \<noteq> map_of kw")
    case True
    with a have "b (remdups (requested v)) kw (clear s) = Inr s1" by simp
    with ok have "logged (set (remdups (requested v))) (clear s) s1"
      unfolding builder_ok_def by blast
    with logged_clear [of s] have "logged (set (remdups (requested v))) s s1"
      by (rule logged_trans0)
    then have "logged {} s s1" by (rule logged_mono) simp
    with d show ?thesis by (simp add: logged_groups)
  next
    case False
    with a have "b (filter (\<lambda>q. quantities s q = None) (remdups (requested v))) kw s = Inr s1"
      by simp
    with ok have "logged (set (filter (\<lambda>q. quantities s q = None) (remdups (requested v)))) s s1"
      unfolding builder_ok_def by blast
    then have "logged {} s s1" by (rule logged_mono) simp
    with d show ?thesis by (simp add: logged_groups)
  qed
  have pr: "\<not> u \<longrightarrow> preserving (dom (quantities s)) kw s s'"
  proof
    assume nu: "\<not> u"
    show "preserving (dom (quantities s)) kw s s'"
    proof (cases "map_of (groups s) = map_of kw")
      case False
      then show ?thesis by (simp add: preserving_def)
    next
      case True
      with nu a
      have "b (filter (\<lambda>q. quantities s q = None) (remdups (requested v))) kw s = Inr s1"
        by simp
      moreover have "set (filter (\<lambda>q. quantities s q = None) (remdups (requested v))) \<inter>
                       dom (quantities s) = {}"
        by auto
      ultimately have "preserving (dom (quantities s)) kw s s1"
        using ok unfolding builder_ok_def by blast
      with d show ?thesis by (simp add: preserving_groups)
    qed
  qed
  from lg pr show "logged {} s s' \<and> (\<not> u \<longrightarrow> preserving (dom (quantities s)) kw s s')"
    by simp
qed

lemma no_get_ok: "getter_ok no_get"
  by (simp add: getter_ok_def no_get_def)

lemma build_get0_ok: "builder_ok (build_quantities (get0 E) E)"
  unfolding get0_def
  by (intro build_quantities_ok get_body_ok no_get_ok)

section \<open>Calling \<open>get\<close> twice, and what a call derives\<close>

lemma build_quantities_Nil:
  "build_quantities g E [] kw s = ebind (filter_kwargs (raw_data E) kw) (\<lambda>raw. Inr s)"
  by (simp add: build_quantities_def mode_step_def to_clean_step_def pel_step_def t_step_def)

lemma build_quantities_filter:
  assumes "build_quantities g E names kw s = Inr s'"
  shows "\<exists>raw. filter_kwargs (raw_data E) kw = Inr raw"
  using assms unfolding build_quantities_def Let_def by (auto simp: ebind_eq_Inr)

lemma mapM_update_units_cached:
  "mapM (update_units E su s) qs = Inr vals \<Longrightarrow> q \<in> set qs \<Longrightarrow> quantities s q \<noteq> None"
proof (induction qs arbitrary: vals)
  case Nil then show ?case by simp
next
  case (Cons a qs)
  from Cons.prems(1) obtain y ys where y: "update_units E su s a = Inr y"
    and ys: "mapM (update_units E su s) qs = Inr ys"
    by (auto simp: ebind_eq_Inr)
  show ?case
  proof (cases "q = a")
    case True
    with y show ?thesis by (auto simp: update_units_def split: option.splits)
  next
    case False
    with Cons.prems(2) have "q \<in> set qs" by simp
    with Cons.IH [OF ys] show ?thesis by simp
  qed
qed

text \<open>
  Claim C3: when a call of \<open>get\<close> with \<open>update = False\<close> has returned, the same call
  (same names, same filter) on the state it left returns the same values and leaves
  the state as it is: the cache, the filter and the trace are unchanged, so nothing was
  derived or emptied by the second call.
\<close>

theorem get_twice_no_recomputation:
  assumes first: "get E variables False kwargs s = Inr (vals, s1)"
  shows "get E variables False kwargs s1 = Inr (vals, s1)"
proof -
  let ?b = "build_quantities (get0 E) E"
  let ?su = "spec_units (split variables) Map.empty"
  from first have "get_body ?b E variables False kwargs s = Inr (vals, s1)"
    by (simp add: get_def)
  then obtain s0 where
    a: "(if False \<or> map_of (groups s) \<noteq> map_of kwargs
         then ?b (remdups (requested variables)) kwargs (clear s)
         else ?b (filter (\<lambda>q. quantities s q = None) (remdups (requested variables))) kwargs s)
        = Inr s0"
    and d: "s1 = s0\<lparr>groups := kwargs\<rparr>"
    and ne: "requested variables \<noteq> []"
    and m: "mapM (update_units E ?su s1) (requested variables) = Inr vals"
    by (rule get_body_shape)
  from a obtain names t where "?b names kwargs t = Inr s0" by (auto split: if_splits)
  then obtain raw where raw: "filter_kwargs (raw_data E) kwargs = Inr raw"
    using build_quantities_filter by blast
  have g: "groups s1 = kwargs" using d by simp
  have "\<forall>q\<in>set (remdups (requested variables)). quantities s1 q \<noteq> None"
    using mapM_update_units_cached [OF m] by simp
  then have none: "filter (\<lambda>q. quantities s1 q = None) (remdups (requested variables)) = []"
    by (simp add: filter_empty_conv)
  have same: "s1\<lparr>groups := kwargs\<rparr> = s1" using g by simp
  have "get_body ?b E variables False kwargs s1 = Inr (vals, s1)"
    unfolding get_body_def Let_def
    using g none raw ne m by (simp add: build_quantities_Nil same)
  then show ?thesis by (simp add: get_def)
qed

text \<open>
  Claim C4.  A call of \<open>get\<close> that returns has extended the trace.

  With \<open>update = True\<close>, or with a filter other than the one the cache was built for:
  the first new event empties the cache, every entry of the cache afterwards was
  assigned after that, and every requested name was assigned after that.

  Otherwise: the cache was not emptied, no name that was in the cache was assigned
  again, the entries that were in the cache are unchanged, and every requested name
  that was not in the cache was assigned.
\<close>

theorem get_invalidates_or_fills:
  assumes g: "get E variables update kwargs s = Inr (vals, s')"
  shows "(update \<or> map_of (groups s) \<noteq> map_of kwargs \<longrightarrow>
            (\<exists>rest. trace s' = trace s @ Cleared # rest \<and>
               (\<forall>n\<in>dom (quantities s'). Derived n \<in> set rest) \<and>
               (\<forall>n\<in>set (requested variables). Derived n \<in> set rest))) \<and>
         (\<not> update \<and> map_of (groups s) = map_of kwargs \<longrightarrow>
            (\<exists>new. trace s' = trace s @ new \<and> Cleared \<notin> set new \<and>
               (\<forall>n. Derived n \<in> set new \<longrightarrow> n \<notin> dom (quantities s)) \<and>
               (\<forall>n\<in>dom (quantities s). quantities s' n = quantities s n) \<and>
               (\<forall>n\<in>set (requested variables).
                  n \<notin> dom (quantities s) \<longrightarrow> Derived n \<in> set new)))"
proof -
  let ?b = "build_quantities (get0 E) E"
  have ok: "builder_ok ?b" by (rule build_get0_ok)
  from g have "get_body ?b E variables update kwargs s = Inr (vals, s')"
    by (simp add: get_def)
  then obtain s1 where
    a: "(if update \<or> map_of (groups s) \<noteq> map_of kwargs
         then ?b (remdups (requested variables)) kwargs (clear s)
         else ?b (filter (\<lambda>q. quantities s q = None) (remdups (requested variables))) kwargs s)
        = Inr s1"
    and d: "s' = s1\<lparr>groups := kwargs\<rparr>"
    by (rule get_body_shape)
  show ?thesis
  proof (intro conjI impI)
    assume c: "update \<or> map_of (groups s) \<noteq> map_of kwargs"
    with a have "?b (remdups (requested variables)) kwargs (clear s) = Inr s1" by simp
    with ok have "logged (set (remdups (requested variables))) (clear s) s1"
      unfolding builder_ok_def by blast
    then obtain rest where t: "trace s1 = trace (clear s) @ rest"
      and e: "\<forall>n q. quantities s1 n = Some q \<longrightarrow>
                quantities (clear s) n = Some q \<or> Derived n \<in> set rest"
      and r: "\<forall>n\<in>set (remdups (requested variables)). Derived n \<in> set rest"
      unfolding logged_def by blast
    have "trace s' = trace s @ Cleared # rest" using t d by (simp add: clear_def)
    moreover have "\<forall>n\<in>dom (quantities s'). Derived n \<in> set rest"
      using e d by (auto simp: clear_def)
    moreover have "\<forall>n\<in>set (requested variables). Derived n \<in> set rest" using r by simp
    ultimately show "\<exists>rest. trace s' = trace s @ Cleared # rest \<and>
               (\<forall>n\<in>dom (quantities s'). Derived n \<in> set rest) \<and>
               (\<forall>n\<in>set (requested variables). Derived n \<in> set rest)"
      by blast
  next
    assume c: "\<not> update \<and> map_of (groups s) = map_of kwargs"
    let ?names = "filter (\<lambda>q. quantities s q = None) (remdups (requested variables))"
    from c a have b: "?b ?names kwargs s = Inr s1" by simp
    have "set ?names \<inter> dom (quantities s) = {}" by auto
    with ok b have "preserving (dom (quantities s)) kwargs s s1"
      unfolding builder_ok_def by blast
    with c obtain new where t: "trace s1 = trace s @ new" and nc: "Cleared \<notin> set new"
      and nd: "\<forall>n. Derived n \<in> set new \<longrightarrow> n \<notin> dom (quantities s)"
      and k: "\<forall>n\<in>dom (quantities s). quantities s1 n = quantities s n"
      unfolding preserving_def by blast
    from ok b have "logged (set ?names) s s1" unfolding builder_ok_def by blast
    then obtain new' where t': "trace s1 = trace s @ new'"
      and r: "\<forall>n\<in>set ?names. Derived n \<in> set new'"
      unfolding logged_def by blast
    from t t' have "new' = new" by simp
    with r have r': "\<forall>n\<in>set (requested variables).
                  n \<notin> dom (quantities s) \<longrightarrow> Derived n \<in> set new"
      by (auto simp: domIff)
    have "trace s' = trace s @ new" using t d by simp
    moreover have "\<forall>n\<in>dom (quantities s). quantities s' n = quantities s n" using k d by simp
    ultimately show "\<exists>new. trace s' = trace s @ new \<and> Cleared \<notin> set new \<and>
               (\<forall>n. Derived n \<in> set new \<longrightarrow> n \<notin> dom (quantities s)) \<and>
               (\<forall>n\<in>dom (quantities s). quantities s' n = quantities s n) \<and>
               (\<forall>n\<in>set (requested variables).
                  n \<notin> dom (quantities s) \<longrightarrow> Derived n \<in> set new)"
      using nc nd r' by blast
  qed
qed

end
